theory Spec2Isabelle
  imports Main "HOL-Library.Multiset" "HOL-Library.Product_Lexorder"
begin


section \<open>Tokens, grids and the JavaScript primitives the board uses\<close>

text \<open>
  An orb is a JavaScript value. The board's default types are small integers; the cleared
  marker written by \<open>evaluate\<close> is the one-character string U+241A, so strings are kept
  as lists of UTF-16 code units. \<open>Undefined\<close> is what an out-of-range array read, a hole
  and \<open>_.sample([])\<close> give.
\<close>

datatype token = Num int | Str "nat list" | Undefined

type_synonym grid = "token list list"
type_synonym coord = "int \<times> int"

text \<open>
  The errors a run can end with. A property read on \<open>undefined\<close> throws a \<open>TypeError\<close>;
  calls nested deeper than the call stack allows throw a \<open>RangeError\<close>. The two other
  errors are the names the specification uses; no line of the source raises them.
\<close>

datatype js_error = TypeError | RangeError | ConfigurationError | OutOfBoundsError

text \<open>
  The outcome of running a piece of the program: it returns a value, it throws, or the
  number of rounds allowed to a \<open>while\<close> loop that may run forever is used up.
\<close>

datatype 'a run = Done 'a | Raise js_error | Timeout

definition cleared :: token where
  "cleared = Str [9242]"

text \<open>\<open>_.range(0, n)\<close>: ascending for a positive end, descending for a negative one.\<close>

definition lodash_range :: "int \<Rightarrow> int list" where
  "lodash_range n = (if 0 \<le> n then map int [0..<nat n] else map (\<lambda>k. - int k) [0..<nat (- n)])"

text \<open>\<open>Array.prototype.slice(start, end)\<close>, negative arguments counting from the end.\<close>

definition js_slice :: "'a list \<Rightarrow> int \<Rightarrow> int \<Rightarrow> 'a list" where
  "js_slice xs start end =
     (let len = int (length xs);
          s = (if start < 0 then max (len + start) 0 else min start len);
          e = (if end < 0 then max (len + end) 0 else min end len)
      in take (nat (e - s)) (drop (nat s) xs))"

text \<open>\<open>xs[i]\<close> for an array of orbs: \<open>undefined\<close> outside the array.\<close>

definition js_nth :: "token list \<Rightarrow> int \<Rightarrow> token" where
  "js_nth xs i = (if 0 \<le> i \<and> i < int (length xs) then xs ! nat i else Undefined)"

text \<open>\<open>orbs[r]\<close>: \<open>None\<close> stands for \<open>undefined\<close>.\<close>

definition js_row :: "grid \<Rightarrow> int \<Rightarrow> token list option" where
  "js_row g r = (if 0 \<le> r \<and> r < int (length g) then Some (g ! nat r) else None)"

text \<open>\<open>xs[i] = v\<close> for a natural index: an index past the end extends the array with holes.\<close>

definition js_update :: "token list \<Rightarrow> nat \<Rightarrow> token \<Rightarrow> token list" where
  "js_update xs i v =
     (if i < length xs then xs[i := v] else xs @ replicate (i - length xs) Undefined @ [v])"

text \<open>\<open>orbs[r][c]\<close>: a \<open>TypeError\<close> when \<open>orbs[r]\<close> is \<open>undefined\<close>.\<close>

definition get_orb :: "grid \<Rightarrow> int \<Rightarrow> int \<Rightarrow> token run" where
  "get_orb g r c = (case js_row g r of None \<Rightarrow> Raise TypeError | Some row \<Rightarrow> Done (js_nth row c))"

text \<open>
  \<open>orbs[r][c] = v\<close>. A negative column would add a property named by the index and leave
  the array elements alone; the grid keeps only the elements.
\<close>

definition set_orb :: "grid \<Rightarrow> int \<Rightarrow> int \<Rightarrow> token \<Rightarrow> grid run" where
  "set_orb g r c v =
     (case js_row g r of
        None \<Rightarrow> Raise TypeError
      | Some row \<Rightarrow> Done (if c < 0 then g else g[nat r := js_update row (nat c) v]))"

text \<open>\<open>_.zip(...orbs)\<close>: the transpose, short rows padded with \<open>undefined\<close>.\<close>

definition lodash_zip :: "grid \<Rightarrow> grid" where
  "lodash_zip g =
     map (\<lambda>i. map (\<lambda>row. js_nth row (int i)) g) [0..<foldr (\<lambda>row m. max (length row) m) g 0]"

section \<open>The grid scanner\<close>

record chunk =
  rows :: "token list list"
  position :: "(coord \<times> coord) option"

definition swap_pair :: "coord \<Rightarrow> coord" where
  "swap_pair p = (snd p, fst p)"

text \<open>One window of \<open>_iterchunks\<close>, at \<open>heightIndex\<close>, \<open>widthIndex\<close>.\<close>

definition chunk_at :: "grid \<Rightarrow> int \<Rightarrow> int \<Rightarrow> bool \<Rightarrow> bool \<Rightarrow> int \<Rightarrow> int \<Rightarrow> chunk" where
  "chunk_at orbs width height includePositionInformation isTransposed heightIndex widthIndex =
     \<lparr> rows = map (\<lambda>row. js_slice row widthIndex (widthIndex + width))
                 (js_slice orbs heightIndex (heightIndex + height)),
       position =
         (if includePositionInformation then
            (let startingCoordinates = (heightIndex, widthIndex);
                 endingCoordinates = (heightIndex + height - 1, widthIndex + width - 1)
             in if isTransposed then Some (swap_pair startingCoordinates, swap_pair endingCoordinates)
                else Some (startingCoordinates, endingCoordinates))
          else None) \<rparr>"

definition iterchunks_priv :: "grid \<Rightarrow> int \<times> int \<Rightarrow> bool \<Rightarrow> bool \<Rightarrow> chunk list run" where
  "iterchunks_priv orbs chunkLimitRange includePositionInformation isTransposed =
     (case orbs of
        [] \<Rightarrow> Raise TypeError
      | row0 # _ \<Rightarrow>
          (let width = fst chunkLimitRange; height = snd chunkLimitRange;
               finalPositionWidth = int (length row0) - width;
               finalPositionHeight = int (length orbs) - height
           in Done (concat (map (\<lambda>heightIndex.
                      map (\<lambda>widthIndex.
                             chunk_at orbs width height includePositionInformation isTransposed
                               heightIndex widthIndex)
                          (lodash_range (finalPositionWidth + 1)))
                    (lodash_range (finalPositionHeight + 1))))))"

definition iterchunks :: "grid \<Rightarrow> int \<times> int \<Rightarrow> bool \<Rightarrow> chunk list run" where
  "iterchunks orbs chunkLimitRange includePositionInformation =
     (case iterchunks_priv orbs chunkLimitRange includePositionInformation False of
        Done a \<Rightarrow>
          (case iterchunks_priv (lodash_zip orbs) chunkLimitRange includePositionInformation True of
             Done b \<Rightarrow> Done (a @ b)
           | Raise e \<Rightarrow> Raise e
           | Timeout \<Rightarrow> Timeout)
      | Raise e \<Rightarrow> Raise e
      | Timeout \<Rightarrow> Timeout)"

section \<open>Structural enumeration\<close>

text \<open>
  The body of the loop of \<open>_findMatches\<close> for one chunk. \<open>_.first(chunk)\<close> is the first
  row of the window; in a window without rows it is the metadata object, whose \<open>_.uniq\<close>
  is empty.
\<close>

definition match_of_chunk :: "bool \<Rightarrow> chunk \<Rightarrow> coord list list" where
  "match_of_chunk isTransposed ch =
     (case (rows ch, position ch) of
        (orbs # _, Some (anchor, _)) \<Rightarrow>
          (if length (remdups orbs) = 1 then
             [if isTransposed
              then [anchor, (fst anchor + 1, snd anchor), (fst anchor + 2, snd anchor)]
              else [anchor, (fst anchor, snd anchor + 1), (fst anchor, snd anchor + 2)]]
           else [])
      | _ \<Rightarrow> [])"

definition findMatches_priv :: "chunk list \<Rightarrow> bool \<Rightarrow> coord list list" where
  "findMatches_priv chunks isTransposed = concat (map (match_of_chunk isTransposed) chunks)"

definition findMatches :: "grid \<Rightarrow> coord list list run" where
  "findMatches orbs =
     (case iterchunks_priv orbs (3, 1) True False of
        Done chunksOriginal \<Rightarrow>
          (case iterchunks_priv (lodash_zip orbs) (3, 1) True True of
             Done chunksTransposed \<Rightarrow>
               Done (findMatches_priv chunksOriginal False @ findMatches_priv chunksTransposed True)
           | Raise e \<Rightarrow> Raise e
           | Timeout \<Rightarrow> Timeout)
      | Raise e \<Rightarrow> Raise e
      | Timeout \<Rightarrow> Timeout)"

text \<open>
  \<open>Board.hasMatch\<close>: \<open>Boolean(findTriples(this.orbs)[0])\<close>; a group is an array, hence
  truthy. The board module calls the enumeration \<open>findTriples\<close>; the function of that
  purpose in the sources is \<open>findMatches\<close>.
\<close>

definition hasMatch :: "grid \<Rightarrow> bool run" where
  "hasMatch orbs =
     (case findMatches orbs of Done ms \<Rightarrow> Done (ms \<noteq> []) | Raise e \<Rightarrow> Raise e | Timeout \<Rightarrow> Timeout)"

section \<open>Swapping two orbs\<close>

text \<open>
  \<open>Board.swap\<close> on the grid. The deep copy is the value \<open>orbs\<close> itself; the two writes go
  to the live grid and read from the copy.
\<close>

definition swap :: "grid \<Rightarrow> coord \<times> coord \<Rightarrow> bool \<Rightarrow> grid run" where
  "swap orbs swapOrbs playerSwap =
     (let row1 = fst (fst swapOrbs); col1 = snd (fst swapOrbs);
          row2 = fst (snd swapOrbs); col2 = snd (snd swapOrbs);
          orbsBefore = orbs
      in case get_orb orbsBefore row2 col2 of
           Raise e \<Rightarrow> Raise e | Timeout \<Rightarrow> Timeout
         | Done v2 \<Rightarrow>
          (case set_orb orbs row1 col1 v2 of
             Raise e \<Rightarrow> Raise e | Timeout \<Rightarrow> Timeout
           | Done orbs1 \<Rightarrow>
            (case get_orb orbsBefore row1 col1 of
               Raise e \<Rightarrow> Raise e | Timeout \<Rightarrow> Timeout
             | Done v1 \<Rightarrow>
              (case set_orb orbs1 row2 col2 v1 of
                 Raise e \<Rightarrow> Raise e | Timeout \<Rightarrow> Timeout
               | Done orbs2 \<Rightarrow>
                  (if playerSwap then
                     (case hasMatch orbs2 of
                        Raise e \<Rightarrow> Raise e | Timeout \<Rightarrow> Timeout
                      | Done m \<Rightarrow> Done (if \<not> m then orbsBefore else orbs2))
                   else Done orbs2)))))"

definition in_bounds :: "grid \<Rightarrow> coord \<Rightarrow> bool" where
  "in_bounds g p \<longleftrightarrow>
     0 \<le> fst p \<and> fst p < int (length g) \<and> 0 \<le> snd p \<and> snd p < int (length (g ! nat (fst p)))"

text \<open>The grid after the two writes of \<open>swap\<close>, for in-bounds coordinates.\<close>

definition exchanged :: "grid \<Rightarrow> coord \<Rightarrow> coord \<Rightarrow> grid" where
  "exchanged g a b =
     (let g1 = g[nat (fst a) := (g ! nat (fst a))[nat (snd a) := g ! nat (fst b) ! nat (snd b)]]
      in g1[nat (fst b) := (g1 ! nat (fst b))[nat (snd b) := g ! nat (fst a) ! nat (snd a)]])"

definition tokens_of :: "grid \<Rightarrow> token multiset" where
  "tokens_of g = mset (concat g)"



section \<open>Vocabulary for the claims about enumeration\<close>

definition rectangular :: "grid \<Rightarrow> nat \<Rightarrow> nat \<Rightarrow> bool" where
  "rectangular g h w \<longleftrightarrow> length g = h \<and> (\<forall>row \<in> set g. length row = w)"

definition windows :: "grid \<Rightarrow> bool \<Rightarrow> nat \<Rightarrow> nat \<Rightarrow> chunk list" where
  "windows g t h w =
     concat (map (\<lambda>r. map (\<lambda>c. chunk_at g 3 1 True t (int r) (int c)) [0..<w - 2]) [0..<h])"

definition cell :: "grid \<Rightarrow> coord \<Rightarrow> token" where
  "cell g p = g ! nat (fst p) ! nat (snd p)"

definition straight_triple :: "grid \<Rightarrow> coord list \<Rightarrow> bool" where
  "straight_triple g m =
     (case m of
        [p1, p2, p3] \<Rightarrow>
          in_bounds g p1 \<and> in_bounds g p2 \<and> in_bounds g p3
          \<and> ((p2 = (fst p1, snd p1 + 1) \<and> p3 = (fst p1, snd p1 + 2))
               \<or> (p2 = (fst p1 + 1, snd p1) \<and> p3 = (fst p1 + 2, snd p1)))
          \<and> cell g p1 = cell g p2 \<and> cell g p2 = cell g p3
      | _ \<Rightarrow> False)"

definition row_window_equal :: "grid \<Rightarrow> nat \<Rightarrow> nat \<Rightarrow> bool" where
  "row_window_equal g r c \<longleftrightarrow>
     r < length g \<and> c + 2 < length (g ! r)
     \<and> g ! r ! c = g ! r ! (c + 1) \<and> g ! r ! (c + 1) = g ! r ! (c + 2)"

definition col_window_equal :: "grid \<Rightarrow> nat \<Rightarrow> nat \<Rightarrow> bool" where
  "col_window_equal g r c \<longleftrightarrow>
     r + 2 < length g \<and> c < length (g ! r)
     \<and> g ! r ! c = g ! (r + 1) ! c \<and> g ! (r + 1) ! c = g ! (r + 2) ! c"

section \<open>The wide scan\<close>

text \<open>
  \<open>_.countBy\<close> counts under the string form of each value, so the number \<open>1\<close> and the
  string \<open>"1"\<close> fall under one key. \<open>key_of\<close> is that string, as UTF-16 code units.
\<close>

fun digits :: "nat \<Rightarrow> nat list" where
  "digits n = (if n < 10 then [48 + n] else digits (n div 10) @ [48 + n mod 10])"

fun key_of :: "token \<Rightarrow> nat list" where
  "key_of (Num i) = (if i < 0 then 45 # digits (nat (- i)) else digits (nat i))"
| "key_of (Str s) = s"
| "key_of Undefined = [117, 110, 100, 101, 102, 105, 110, 101, 100]"

text \<open>\<open>_.values(_.countBy(row))\<close>: one count for each key, in order of first appearance.\<close>

definition countBy_values :: "token list \<Rightarrow> nat list" where
  "countBy_values row = (let keys = map key_of row in map (count_list keys) (remdups keys))"

text \<open>\<open>_.max(xs) > 2\<close>; the maximum of no numbers is \<open>undefined\<close>, and the test is false.\<close>

definition max_exceeds_two :: "nat list \<Rightarrow> bool" where
  "max_exceeds_two xs = (case xs of [] \<Rightarrow> False | x # rest \<Rightarrow> 2 < fold max rest x)"

definition hasMatchInSingleRow :: "token list \<Rightarrow> bool" where
  "hasMatchInSingleRow row = max_exceeds_two (countBy_values row)"

definition indexOfAll :: "token list \<Rightarrow> token \<Rightarrow> nat list" where
  "indexOfAll list v = filter (\<lambda>i. list ! i = v) [0..<length list]"

text \<open>
  \<open>pairOfRows[0]\<close> and \<open>pairOfRows[1]\<close>; reducing over \<open>undefined\<close> gives no index. The
  default \<open>sort()\<close> orders by string form, which for the indices that can equal one of the
  three patterns (all below 4) is the numeric order.
\<close>

definition row_or_empty :: "token list list \<Rightarrow> nat \<Rightarrow> token list" where
  "row_or_empty pairOfRows i = (if i < length pairOfRows then pairOfRows ! i else [])"

definition hasMatchInPairOfRows :: "token list list \<Rightarrow> bool" where
  "hasMatchInPairOfRows pairOfRows =
     (let allValues = remdups (concat pairOfRows);
          allMatches = map (\<lambda>v. sort (remdups (indexOfAll (row_or_empty pairOfRows 0) v
                                                 @ indexOfAll (row_or_empty pairOfRows 1) v)))
                           allValues
      in list_ex (\<lambda>m. m = [0, 1, 2] \<or> m = [1, 2, 3] \<or> m = [0, 1, 2, 3]) allMatches)"

text \<open>
  \<open>Board.hasPotentialMatch\<close> and \<open>Board.needsShuffle\<close>, on the grid. The board module
  calls the two tests \<open>hasPotentialMatchInSingleRow\<close> and \<open>hasPotentialMatchInPairOfRows\<close>;
  in the sources they are \<open>hasMatchInSingleRow\<close> and \<open>hasMatchInPairOfRows\<close>.
\<close>

definition hasPotentialMatch :: "grid \<Rightarrow> bool run" where
  "hasPotentialMatch orbs =
     (case iterchunks orbs (4, 2) False of
        Done chunks \<Rightarrow>
          (let flatChunks = concat (map rows chunks);
               hasWideStyleMatch = list_ex (\<lambda>b. b) (map hasMatchInSingleRow flatChunks)
           in Done (hasWideStyleMatch \<or> list_ex (\<lambda>ch. hasMatchInPairOfRows (rows ch)) chunks))
      | Raise e \<Rightarrow> Raise e
      | Timeout \<Rightarrow> Timeout)"

definition needsShuffle :: "grid \<Rightarrow> bool run" where
  "needsShuffle orbs =
     (case hasPotentialMatch orbs of Done b \<Rightarrow> Done (\<not> b) | Raise e \<Rightarrow> Raise e | Timeout \<Rightarrow> Timeout)"

subsection \<open>Vocabulary for the claim about the wide scan\<close>

text \<open>The windows of the wide scan on a rectangle with at least two rows and four columns.\<close>

definition wide_windows :: "grid \<Rightarrow> bool \<Rightarrow> nat \<Rightarrow> nat \<Rightarrow> chunk list" where
  "wide_windows g t h w =
     concat (map (\<lambda>r. map (\<lambda>c. chunk_at g 4 2 False t (int r) (int c)) [0..<w - 3]) [0..<h - 1])"

section \<open>The match merger\<close>

text \<open>
  \<open>new SortedSet(values)\<close> of the collections library holds each coordinate once, in the
  order of \<open>Object.compare\<close>, which on two-element arrays is the lexicographic order;
  \<open>toArray()\<close> gives the coordinates in that order.
\<close>

definition sorted_set :: "coord list \<Rightarrow> coord list" where
  "sorted_set xs = sort (remdups xs)"

text \<open>
  The body of the \<open>_.each(couldMatch, ...)\<close> loop of \<open>combineMatches\<close>, on the pair of
  \<open>currentMatch\<close> and \<open>unused\<close>. The test \<open>before != currentMatch.toArray()\<close> compares two
  fresh arrays and is always true, so every overlapping group is spliced out of \<open>unused\<close>.
\<close>

definition merge_step :: "coord list \<Rightarrow> coord list \<times> coord list list \<Rightarrow> coord list \<times> coord list list" where
  "merge_step m st =
     (let currentMatch = fst st; unused = snd st
      in if filter (\<lambda>x. x \<in> set m) currentMatch \<noteq> []
         then (sorted_set (currentMatch @ m), remove1 m unused)
         else (currentMatch, unused))"

function combineMatches :: "coord list list \<Rightarrow> coord list list" where
  "combineMatches [] = []"
| "combineMatches (m # unused) =
     (let st = fold merge_step unused (sorted_set m, unused)
      in fst st # combineMatches (snd st))"
  by pat_completeness auto
termination
proof (relation "measure length")
  show "wf (measure length)" by simp
next
  fix m :: "coord list" and unused :: "coord list list" and st
  assume st: "st = fold merge_step unused (sorted_set m, unused)"
  have "length (snd (fold merge_step xs (c, u))) \<le> length u" for xs c u
  proof (induction xs arbitrary: c u)
    case Nil
    then show ?case by simp
  next
    case (Cons x xs)
    have "length (remove1 x u) \<le> length u"
      by (cases "x \<in> set u") (simp_all add: length_remove1)
    then show ?case
      using Cons[of "sorted_set (c @ x)" "remove1 x u"] Cons[of c u]
      by (simp add: merge_step_def Let_def)
  qed
  then show "(snd st, m # unused) \<in> measure length"
    by (simp add: st le_imp_less_Suc)
qed

subsection \<open>Vocabulary for the claim about the merger\<close>

text \<open>Two groups share a coordinate.\<close>

definition overlap :: "coord list \<Rightarrow> coord list \<Rightarrow> bool" where
  "overlap a b \<longleftrightarrow> list_ex (\<lambda>x. x \<in> set b) a"

section \<open>The board and its random source\<close>

record board =
  width :: nat
  height :: nat
  types :: "token list"
  orbs :: grid

text \<open>
  The random source is the list of raw draws still to come; once the list is used up every
  further draw is 0. Any finite run reads finitely many draws, so every run on any source
  is the run on one of these lists.
\<close>

type_synonym rand = "nat list"

fun next_draw :: "rand \<Rightarrow> nat \<times> rand" where
  "next_draw [] = (0, [])"
| "next_draw (r # rs) = (r, rs)"

text \<open>\<open>_.sample(xs)\<close>: \<open>undefined\<close> for an empty array, without a draw.\<close>

definition sample :: "token list \<Rightarrow> rand \<Rightarrow> token \<times> rand" where
  "sample xs rs = (if xs = [] then (Undefined, rs)
                   else (xs ! (fst (next_draw rs) mod length xs), snd (next_draw rs)))"

definition bind_run :: "'a run \<Rightarrow> ('a \<Rightarrow> 'b run) \<Rightarrow> 'b run" where
  "bind_run m f = (case m of Done x \<Rightarrow> f x | Raise e \<Rightarrow> Raise e | Timeout \<Rightarrow> Timeout)"

section \<open>Cascade resolution\<close>

type_synonym match_event = "token \<times> nat"

text \<open>The inner \<open>_.each(match, ...)\<close>: every coordinate of the group is overwritten.\<close>

fun mark_coords :: "grid \<Rightarrow> coord list \<Rightarrow> grid run" where
  "mark_coords g [] = Done g"
| "mark_coords g (p # ps) = bind_run (set_orb g (fst p) (snd p) cleared) (\<lambda>g1. mark_coords g1 ps)"

text \<open>
  The outer \<open>_.each(matches, ...)\<close>. \<open>match[0][0]\<close> on an empty group reads a property of
  \<open>undefined\<close>.
\<close>

fun log_and_mark :: "grid \<Rightarrow> coord list list \<Rightarrow> (match_event list \<times> grid) run" where
  "log_and_mark g [] = Done ([], g)"
| "log_and_mark g (m # ms) =
     (case m of
        [] \<Rightarrow> Raise TypeError
      | p0 # _ \<Rightarrow>
          bind_run (get_orb g (fst p0) (snd p0)) (\<lambda>t.
          bind_run (mark_coords g m) (\<lambda>g1.
          bind_run (log_and_mark g1 ms) (\<lambda>res.
          Done ((t, length m) # fst res, snd res)))))"

text \<open>The loop \<open>for (var z = row; z >= 0; z--)\<close>, entered with \<open>z\<close>.\<close>

fun shift_down :: "grid \<Rightarrow> nat \<Rightarrow> nat \<Rightarrow> token list \<Rightarrow> rand \<Rightarrow> (grid \<times> rand) run" where
  "shift_down g 0 col dropOptions rs =
     bind_run (set_orb g 0 (int col) (fst (sample dropOptions rs))) (\<lambda>g1.
     Done (g1, snd (sample dropOptions rs)))"
| "shift_down g (Suc z) col dropOptions rs =
     bind_run (get_orb g (int z) (int col)) (\<lambda>t.
     bind_run (set_orb g (int (Suc z)) (int col) t) (\<lambda>g1.
     shift_down g1 z col dropOptions rs))"

text \<open>The body of the inner \<open>_.each(_.range(this.width), ...)\<close> at one cell.\<close>

definition sweep_cell :: "nat \<Rightarrow> token list \<Rightarrow> nat \<Rightarrow> grid \<times> rand \<Rightarrow> (grid \<times> rand) run" where
  "sweep_cell row dropOptions col st =
     bind_run (get_orb (fst st) (int row) (int col)) (\<lambda>t.
     if t = cleared then shift_down (fst st) row col dropOptions (snd st) else Done st)"

fun sweep_cols :: "nat \<Rightarrow> token list \<Rightarrow> nat list \<Rightarrow> grid \<times> rand \<Rightarrow> (grid \<times> rand) run" where
  "sweep_cols row dropOptions [] st = Done st"
| "sweep_cols row dropOptions (col # cols) st =
     bind_run (sweep_cell row dropOptions col st) (sweep_cols row dropOptions cols)"

fun sweep_rows :: "nat list \<Rightarrow> nat \<Rightarrow> token list \<Rightarrow> grid \<times> rand \<Rightarrow> (grid \<times> rand) run" where
  "sweep_rows [] w dropOptions st = Done st"
| "sweep_rows (row # rest) w dropOptions st =
     bind_run (sweep_cols row dropOptions [0..<w] st) (sweep_rows rest w dropOptions)"

text \<open>
  \<open>Board.evaluate(matches, dropOptions)\<close>. An absent \<open>matches\<close> is \<open>None\<close>, over which
  \<open>_.each\<close> does nothing; an absent \<open>dropOptions\<close> is the board's \<open>types\<close>.
\<close>

definition evaluate ::
  "board \<Rightarrow> coord list list option \<Rightarrow> token list option \<Rightarrow> rand
     \<Rightarrow> (match_event list \<times> board \<times> rand) run" where
  "evaluate b matches dropOptions rs =
     (let opts = (case dropOptions of None \<Rightarrow> types b | Some d \<Rightarrow> d)
      in bind_run (log_and_mark (orbs b) (case matches of None \<Rightarrow> [] | Some ms \<Rightarrow> ms)) (\<lambda>res.
         bind_run (sweep_rows [0..<height b] (width b) opts (snd res, rs)) (\<lambda>st.
         Done (fst res, b\<lparr>orbs := fst st\<rparr>, snd st))))"

subsection \<open>Vocabulary for the claims about cascade resolution\<close>

text \<open>The board's grid has \<open>height\<close> rows of \<open>width\<close> cells.\<close>

definition well_formed :: "board \<Rightarrow> bool" where
  "well_formed b \<longleftrightarrow> rectangular (orbs b) (height b) (width b)"

definition column :: "grid \<Rightarrow> nat \<Rightarrow> token list" where
  "column g c = map (\<lambda>row. row ! c) g"

text \<open>
  The column \<open>v\<close> is the column \<open>v0\<close> with its first \<open>r\<close> cells drained: the cleared markers
  among them are gone, the tokens that stood above them have moved down in order, and the
  cells freed at the top hold tokens of \<open>d\<close>.
\<close>

definition drained :: "token list \<Rightarrow> token list \<Rightarrow> nat \<Rightarrow> token list \<Rightarrow> bool" where
  "drained d v0 r v \<longleftrightarrow>
     length v = length v0
     \<and> (\<exists>news. set news \<subseteq> set d \<and> v = news @ filter (\<lambda>t. t \<noteq> cleared) (take r v0) @ drop r v0)"

text \<open>The grid with every cell named by one of the groups overwritten by the marker.\<close>

definition marked :: "grid \<Rightarrow> coord list list \<Rightarrow> grid" where
  "marked g ms =
     map (\<lambda>r. map (\<lambda>c. if (int r, int c) \<in> set (concat ms) then cleared else g ! r ! c)
                  [0..<length (g ! r)])
         [0..<length g]"

text \<open>
  The state of the sweep when it stands at row \<open>r\<close>, column \<open>c\<close>: the columns to the left
  are drained through row \<open>r\<close>, the others through the row above.
\<close>

definition sweep_inv :: "token list \<Rightarrow> grid \<Rightarrow> nat \<Rightarrow> nat \<Rightarrow> nat \<Rightarrow> grid \<Rightarrow> bool" where
  "sweep_inv d g0 w r c g \<longleftrightarrow>
     (\<forall>c' < w. drained d (column g0 c') (if c' < c then Suc r else r) (column g c'))"

section \<open>Random choices of lodash\<close>

text \<open>\<open>_.random(n)\<close>: an integer between 0 and \<open>n\<close>, both included, whichever is smaller first.\<close>

definition lodash_random :: "int \<Rightarrow> rand \<Rightarrow> int \<times> rand" where
  "lodash_random n rs =
     ((if 0 \<le> n then int (fst (next_draw rs) mod nat (n + 1))
       else n + int (fst (next_draw rs) mod nat (1 - n))),
      snd (next_draw rs))"

text \<open>
  \<open>_.shuffle\<close>: position \<open>index\<close> is exchanged with a position drawn between \<open>index\<close> and
  the last one, for every \<open>index\<close> from the first; \<open>k\<close> counts the positions still to do.
\<close>

fun shuffle_steps :: "nat \<Rightarrow> nat \<Rightarrow> 'a list \<Rightarrow> rand \<Rightarrow> 'a list \<times> rand" where
  "shuffle_steps 0 index xs rs = (xs, rs)"
| "shuffle_steps (Suc k) index xs rs =
     (let j = index + fst (next_draw rs) mod (length xs - index)
      in shuffle_steps k (Suc index) (xs[j := xs ! index, index := xs ! j]) (snd (next_draw rs)))"

definition lodash_shuffle :: "'a list \<Rightarrow> rand \<Rightarrow> 'a list \<times> rand" where
  "lodash_shuffle xs rs = shuffle_steps (length xs) 0 xs rs"

text \<open>\<open>_.times(n, chooseOrb)\<close> and \<open>_.times(n, sampleRow)\<close>.\<close>

fun sample_times :: "nat \<Rightarrow> token list \<Rightarrow> rand \<Rightarrow> token list \<times> rand" where
  "sample_times 0 tys rs = ([], rs)"
| "sample_times (Suc k) tys rs =
     (let t = sample tys rs; more = sample_times k tys (snd t)
      in (fst t # fst more, snd more))"

fun sample_rows :: "nat \<Rightarrow> nat \<Rightarrow> token list \<Rightarrow> rand \<Rightarrow> grid \<times> rand" where
  "sample_rows 0 w tys rs = ([], rs)"
| "sample_rows (Suc k) w tys rs =
     (let row = sample_times w tys rs; more = sample_rows k w tys (snd row)
      in (fst row # fst more, snd more))"

text \<open>\<open>_.map(this.orbs, row => _.shuffle(row))\<close>.\<close>

fun shuffle_rows :: "grid \<Rightarrow> rand \<Rightarrow> grid \<times> rand" where
  "shuffle_rows [] rs = ([], rs)"
| "shuffle_rows (row # rest) rs =
     (let r = lodash_shuffle row rs; more = shuffle_rows rest (snd r)
      in (fst r # fst more, snd more))"

section \<open>The repair primitive\<close>

datatype direction = Up | Down | Left | Right

text \<open>
  One arm of the \<open>if\<close> chain in the loop of \<open>_unmatch\<close>: the neighbour in the direction,
  when the arm's condition holds. The row \<open>orbs[row]\<close> exists, \<open>thisOrb\<close> having been read
  from it.
\<close>

definition neighbour :: "grid \<Rightarrow> int \<Rightarrow> int \<Rightarrow> token \<Rightarrow> direction \<Rightarrow> coord option" where
  "neighbour g row col thisOrb dir =
     (case dir of
        Up \<Rightarrow> (case js_row g (row - 1) of
                 None \<Rightarrow> None
               | Some r \<Rightarrow> if js_nth r col \<noteq> thisOrb then Some (row - 1, col) else None)
      | Down \<Rightarrow> (case js_row g (row + 1) of
                 None \<Rightarrow> None
               | Some r \<Rightarrow> if js_nth r col \<noteq> thisOrb then Some (row + 1, col) else None)
      | Left \<Rightarrow> (case js_row g row of
                 None \<Rightarrow> None
               | Some r \<Rightarrow> if js_nth r (col - 1) \<noteq> Undefined \<and> js_nth r (col - 1) \<noteq> thisOrb
                           then Some (row, col - 1) else None)
      | Right \<Rightarrow> (case js_row g row of
                 None \<Rightarrow> None
               | Some r \<Rightarrow> if js_nth r (col + 1) \<noteq> Undefined \<and> js_nth r (col + 1) \<noteq> thisOrb
                           then Some (row, col + 1) else None))"

text \<open>The loop over the four shuffled directions: the first whose arm fires.\<close>

fun first_neighbour :: "grid \<Rightarrow> int \<Rightarrow> int \<Rightarrow> token \<Rightarrow> direction list \<Rightarrow> coord option" where
  "first_neighbour g row col thisOrb [] = None"
| "first_neighbour g row col thisOrb (dir # dirs) =
     (case neighbour g row col thisOrb dir of
        Some p \<Rightarrow> Some p
      | None \<Rightarrow> first_neighbour g row col thisOrb dirs)"

text \<open>
  \<open>_.includes(match, [randomRow, randomCol])\<close> looks for the array just built among the
  elements of \<open>match\<close> by identity (SameValueZero); a new array is identical to none of them.
\<close>

definition includes_new_array :: "coord list \<Rightarrow> coord \<Rightarrow> bool" where
  "includes_new_array match p = False"

text \<open>
  The loop \<open>while (!swapped)\<close> of \<open>_unmatch\<close>, up to the swap: it returns the coordinate
  the swap is made with. It may run forever; \<open>fuel\<close> bounds the number of rounds.
\<close>

fun random_fallback :: "nat \<Rightarrow> board \<Rightarrow> token \<Rightarrow> coord list \<Rightarrow> rand \<Rightarrow> (coord \<times> rand) run" where
  "random_fallback 0 b thisOrb match rs = Timeout"
| "random_fallback (Suc fuel) b thisOrb match rs =
     (let rr = lodash_random (int (height b) - 1) rs;
          rc = lodash_random (int (width b) - 1) (snd rr);
          p = (fst rr, fst rc)
      in if includes_new_array match p then random_fallback fuel b thisOrb match (snd rc)
         else bind_run (get_orb (orbs b) (fst p) (snd p)) (\<lambda>t.
              if t \<noteq> thisOrb then Done (p, snd rc)
              else random_fallback fuel b thisOrb match (snd rc)))"

text \<open>\<open>Board._unmatch(row, col, match, skipToRandom)\<close>.\<close>

definition unmatch_priv ::
  "nat \<Rightarrow> board \<Rightarrow> int \<Rightarrow> int \<Rightarrow> coord list \<Rightarrow> bool \<Rightarrow> rand \<Rightarrow> (board \<times> rand) run" where
  "unmatch_priv fuel b row col match skipToRandom rs =
     bind_run (get_orb (orbs b) row col) (\<lambda>thisOrb.
       let directions = lodash_shuffle [Up, Down, Left, Right] rs
       in case (if skipToRandom then None
                else first_neighbour (orbs b) row col thisOrb (fst directions)) of
            Some p \<Rightarrow>
              bind_run (swap (orbs b) ((row, col), p) False) (\<lambda>g. Done (b\<lparr>orbs := g\<rparr>, snd directions))
          | None \<Rightarrow>
              bind_run (random_fallback fuel b thisOrb match (snd directions)) (\<lambda>res.
              bind_run (swap (orbs b) ((row, col), fst res) False) (\<lambda>g.
              Done (b\<lparr>orbs := g\<rparr>, snd res))))"

section \<open>Removing matches and shuffling\<close>

text \<open>\<open>match[i]\<close> for a coordinate group: \<open>None\<close> is \<open>undefined\<close>.\<close>

definition nth_coord :: "coord list \<Rightarrow> nat \<Rightarrow> coord option" where
  "nth_coord m i = (if i < length m then Some (m ! i) else None)"

text \<open>The keys of \<open>_.countBy(xs)\<close> whose count exceeds 2.\<close>

definition counted_more_than_twice :: "int list \<Rightarrow> int list" where
  "counted_more_than_twice xs = filter (\<lambda>k. 2 < count_list xs k) (sort (remdups xs))"

text \<open>
  The body of the loop of \<open>Board.unmatch\<close> for the group \<open>match\<close>. Spreading \<open>undefined\<close>
  (a median that does not exist, or the sample of no intersection) throws.
\<close>

definition unmatch_step :: "nat \<Rightarrow> board \<Rightarrow> coord list \<Rightarrow> rand \<Rightarrow> (board \<times> rand) run" where
  "unmatch_step fuel b match rs =
     (let rowCoords = map fst match; colCoords = map snd match;
          isSimpleMatch = (length (remdups rowCoords) = 1 \<or> length (remdups colCoords) = 1)
      in if isSimpleMatch then
           (case nth_coord match (length match div 2) of
              None \<Rightarrow> Raise TypeError
            | Some mid \<Rightarrow>
                bind_run (if length (remdups rowCoords) = 1
                          then bind_run (get_orb (orbs b) (fst mid) (snd mid - 1)) (\<lambda>x.
                               bind_run (get_orb (orbs b) (fst mid) (snd mid + 1)) (\<lambda>y. Done [x, y]))
                          else bind_run (get_orb (orbs b) (fst mid - 1) (snd mid)) (\<lambda>x.
                               bind_run (get_orb (orbs b) (fst mid + 1) (snd mid)) (\<lambda>y. Done [x, y])))
                  (\<lambda>midNeighbors.
                bind_run (get_orb (orbs b) (fst mid) (snd mid)) (\<lambda>t.
                unmatch_priv fuel b (fst mid) (snd mid) match (t \<in> set midNeighbors) rs)))
         else
           (let matchRows = counted_more_than_twice rowCoords;
                matchCols = counted_more_than_twice colCoords;
                intersections = filter (\<lambda>p. fst p \<in> set matchRows \<and> snd p \<in> set matchCols) match
            in if intersections = [] then Raise TypeError
               else (let k = fst (next_draw rs) mod length intersections;
                         p = intersections ! k
                     in unmatch_priv fuel b (fst p) (snd p) match False (snd (next_draw rs)))))"

text \<open>\<open>Board.unmatch\<close>: \<open>fuel\<close> bounds the number of rounds of the loop.\<close>

fun unmatch :: "nat \<Rightarrow> board \<Rightarrow> rand \<Rightarrow> (board \<times> rand) run" where
  "unmatch 0 b rs = Timeout"
| "unmatch (Suc fuel) b rs =
     bind_run (findMatches (orbs b)) (\<lambda>found.
       if found \<noteq> [] then
         bind_run (findMatches (orbs b)) (\<lambda>triples.
           case combineMatches triples of
             [] \<Rightarrow> Raise TypeError
           | match # _ \<Rightarrow>
               bind_run (unmatch_step fuel b match rs) (\<lambda>st. unmatch fuel (fst st) (snd st)))
       else Done (b, rs))"

text \<open>
  \<open>Board.shuffle\<close>. It calls itself while the board needs a shuffle; \<open>fuel\<close> is the depth
  of calls the stack still allows, and a call made when none is left throws a
  \<open>RangeError\<close>, as a recursion that never ends does on every stack.
\<close>

fun shuffle :: "nat \<Rightarrow> board \<Rightarrow> rand \<Rightarrow> (board \<times> rand) run" where
  "shuffle 0 b rs = Raise RangeError"
| "shuffle (Suc fuel) b rs =
     (let mixed = shuffle_rows (orbs b) rs
      in bind_run (unmatch fuel (b\<lparr>orbs := fst mixed\<rparr>) (snd mixed)) (\<lambda>st.
         bind_run (needsShuffle (orbs (fst st))) (\<lambda>again.
         if again then shuffle fuel (fst st) (snd st) else Done st)))"

text \<open>
  The constructor of \<open>Board\<close>. The sampled rows are transposed by \<open>_.zip\<close>, so the grid has
  \<open>width\<close> rows of \<open>height\<close> cells.
\<close>

definition Board_new :: "nat \<Rightarrow> nat \<Rightarrow> nat \<Rightarrow> token list \<Rightarrow> rand \<Rightarrow> (board \<times> rand) run" where
  "Board_new fuel w h tys rs =
     (let sampled = sample_rows h w tys rs;
          b = \<lparr>width = w, height = h, types = tys, orbs = lodash_zip (fst sampled)\<rparr>
      in bind_run (hasMatch (orbs b)) (\<lambda>m.
         bind_run (if m then Done True else needsShuffle (orbs b)) (\<lambda>go.
         if go then shuffle fuel b (snd sampled) else Done (b, snd sampled))))"

subsection \<open>Vocabulary for the claims about repair and construction\<close>

text \<open>Every cell named by the group holds the token \<open>t\<close>.\<close>

definition holds_token :: "grid \<Rightarrow> token \<Rightarrow> coord list \<Rightarrow> bool" where
  "holds_token g t m \<longleftrightarrow> (\<forall>p \<in> set m. get_orb g (fst p) (snd p) = Done t)"

text \<open>The group is not empty and all its cells hold one token.\<close>

definition uniform :: "grid \<Rightarrow> coord list \<Rightarrow> bool" where
  "uniform g m \<longleftrightarrow> m \<noteq> [] \<and> (\<exists>t. holds_token g t m)"

text \<open>The run does not end with one of the two errors of the specification.\<close>

definition no_spec_error :: "'a run \<Rightarrow> bool" where
  "no_spec_error r \<longleftrightarrow> r \<noteq> Raise ConfigurationError \<and> r \<noteq> Raise OutOfBoundsError"

text \<open>The two boards have the same width, height and types.\<close>

definition same_config :: "board \<Rightarrow> board \<Rightarrow> bool" where
  "same_config b b' \<longleftrightarrow> width b' = width b \<and> height b' = height b \<and> types b' = types b"

section \<open>Properties of \<open>swap\<close>\<close>

lemma get_orb_in_bounds:
  "in_bounds g p \<Longrightarrow> get_orb g (fst p) (snd p) = Done (g ! nat (fst p) ! nat (snd p))"
  by (simp add: in_bounds_def get_orb_def js_row_def js_nth_def)

lemma set_orb_in_bounds:
  "in_bounds g p \<Longrightarrow>
   set_orb g (fst p) (snd p) v = Done (g[nat (fst p) := (g ! nat (fst p))[nat (snd p) := v]])"
  by (auto simp add: in_bounds_def set_orb_def js_row_def js_update_def nat_less_iff)

lemma in_bounds_update:
  "in_bounds g p \<Longrightarrow> in_bounds (g[i := (g ! i)[j := v]]) p"
  by (cases "i = nat (fst p)") (auto simp: in_bounds_def)

lemma swap_writes:
  assumes a: "in_bounds g a" and b: "in_bounds g b"
  shows "swap g (a, b) False = Done (exchanged g a b)"
proof -
  let ?g1 = "g[nat (fst a) := (g ! nat (fst a))[nat (snd a) := g ! nat (fst b) ! nat (snd b)]]"
  have b1: "in_bounds ?g1 b" using b by (rule in_bounds_update)
  show ?thesis
    by (simp add: swap_def get_orb_in_bounds[OF a] get_orb_in_bounds[OF b]
        set_orb_in_bounds[OF a] set_orb_in_bounds[OF b1] exchanged_def Let_def)
qed

text \<open>The player's swap is the raw exchange followed by the match test.\<close>

lemma swap_player_unfold:
  "swap g ab True =
     (case swap g ab False of
        Done g2 \<Rightarrow> (case hasMatch g2 of
                      Done m \<Rightarrow> Done (if \<not> m then g else g2)
                    | Raise e \<Rightarrow> Raise e | Timeout \<Rightarrow> Timeout)
      | Raise e \<Rightarrow> Raise e | Timeout \<Rightarrow> Timeout)"
  by (simp add: swap_def Let_def split: run.splits)

lemma mset_concat_update:
  "i < length g \<Longrightarrow> mset (concat (g[i := r])) + mset (g ! i) = mset (concat g) + mset r"
proof (induction g arbitrary: i)
  case Nil
  then show ?case by simp
next
  case (Cons x xs)
  then show ?case by (cases i) (auto simp: add.assoc [symmetric])
qed

lemma mset_update_plus:
  "j < length xs \<Longrightarrow> mset (xs[j := v]) + {#xs ! j#} = mset xs + {#v#}"
  by (simp add: mset_update)

lemma mset_four_eqs:
  fixes M2 M1 M A A' B B' X Y :: "'a multiset"
  assumes "M2 + B = M1 + B'" "M1 + A = M + A'" "A' + X = A + Y" "B' + Y = B + X"
  shows "M2 = M"
  by (metis assms(2) assms(1) assms(4) assms(3) add_left_cancel add_right_cancel
      union_assoc union_lcomm)

lemma tokens_exchanged:
  assumes a: "in_bounds g a" and b: "in_bounds g b"
  shows "tokens_of (exchanged g a b) = tokens_of g"
proof -
  define ra ca rb cb where "ra = nat (fst a)" and "ca = nat (snd a)"
    and "rb = nat (fst b)" and "cb = nat (snd b)"
  have ra: "ra < length g" and ca: "ca < length (g ! ra)"
    using a by (auto simp: in_bounds_def ra_def ca_def nat_less_iff)
  have rb: "rb < length g" and cb: "cb < length (g ! rb)"
    using b by (auto simp: in_bounds_def rb_def cb_def nat_less_iff)
  define g1 where "g1 = g[ra := (g ! ra)[ca := g ! rb ! cb]]"
  have ex: "exchanged g a b = g1[rb := (g1 ! rb)[cb := g ! ra ! ca]]"
    by (simp add: exchanged_def Let_def g1_def ra_def ca_def rb_def cb_def)
  show ?thesis
  proof (cases "ra = rb")
    case True
    have "exchanged g a b = g[ra := (g ! ra)[ca := g ! ra ! cb, cb := g ! ra ! ca]]"
      using ra True by (simp add: ex g1_def)
    moreover have "mset ((g ! ra)[ca := g ! ra ! cb, cb := g ! ra ! ca]) = mset (g ! ra)"
      using ca cb True by (simp add: mset_swap)
    ultimately show ?thesis
      using mset_concat_update[OF ra, of "(g ! ra)[ca := g ! ra ! cb, cb := g ! ra ! ca]"]
      by (simp add: tokens_of_def)
  next
    case False
    have g1rb: "g1 ! rb = g ! rb" using False by (simp add: g1_def)
    have rb1: "rb < length g1" using rb by (simp add: g1_def)
    have e1: "mset (concat (exchanged g a b)) + mset (g ! rb)
               = mset (concat g1) + mset ((g ! rb)[cb := g ! ra ! ca])"
      using mset_concat_update[OF rb1, of "(g ! rb)[cb := g ! ra ! ca]"] by (simp add: ex g1rb)
    have e2: "mset (concat g1) + mset (g ! ra)
               = mset (concat g) + mset ((g ! ra)[ca := g ! rb ! cb])"
      using mset_concat_update[OF ra] by (simp add: g1_def)
    have e3: "mset ((g ! ra)[ca := g ! rb ! cb]) + {#g ! ra ! ca#} = mset (g ! ra) + {#g ! rb ! cb#}"
      by (rule mset_update_plus[OF ca])
    have e4: "mset ((g ! rb)[cb := g ! ra ! ca]) + {#g ! rb ! cb#} = mset (g ! rb) + {#g ! ra ! ca#}"
      by (rule mset_update_plus[OF cb])
    show ?thesis
      unfolding tokens_of_def by (rule mset_four_eqs[OF e1 e2 e3 e4])
  qed
qed

lemma length_nth_update_cell: "length (g[i := (g ! i)[j := v]] ! k) = length (g ! k)"
  by (cases "i = k"; cases "i < length g") (simp_all add: list_update_beyond)

lemma dims_exchanged: "map length (exchanged g a b) = map length g"
  by (rule nth_equalityI) (simp_all add: exchanged_def Let_def length_nth_update_cell)

lemma length_le_foldr_max:
  "row \<in> set g \<Longrightarrow> length row \<le> foldr (\<lambda>row m. max (length row) m) g 0"
  by (induction g) auto

lemma lodash_zip_nonempty:
  "row \<in> set g \<Longrightarrow> row \<noteq> [] \<Longrightarrow> lodash_zip g \<noteq> []"
  using length_le_foldr_max[of row g] by (cases row) (auto simp: lodash_zip_def)

lemma findMatches_total:
  "g \<noteq> [] \<Longrightarrow> lodash_zip g \<noteq> [] \<Longrightarrow> \<exists>ms. findMatches g = Done ms"
  by (cases g; cases "lodash_zip g") (simp_all add: findMatches_def iterchunks_priv_def Let_def)

lemma hasMatch_total_in_bounds:
  assumes "in_bounds g p"
  shows "\<exists>m. hasMatch g = Done m"
proof -
  have r: "nat (fst p) < length g" and c: "g ! nat (fst p) \<noteq> []"
    using assms by (auto simp: in_bounds_def nat_less_iff)
  have 1: "g \<noteq> []" using r by auto
  have 2: "lodash_zip g \<noteq> []" using lodash_zip_nonempty[OF nth_mem[OF r] c] .
  from findMatches_total[OF 1 2] show ?thesis by (auto simp: hasMatch_def)
qed

lemma in_bounds_exchanged: "in_bounds g p \<Longrightarrow> in_bounds (exchanged g a b) p"
  by (simp add: in_bounds_def exchanged_def Let_def length_nth_update_cell)

text \<open>
  C3. A player's swap of two in-bounds cells whose exchanged grid (the grid the raw,
  non-player swap produces) has no group in its structural enumeration returns the grid
  it started from, cell for cell; in particular no cleared marker can appear.
\<close>

theorem swap_player_no_match_roundtrip:
  assumes "in_bounds g a" and "in_bounds g b"
    and "swap g (a, b) False = Done g2" and "findMatches g2 = Done []"
  shows "swap g (a, b) True = Done g"
  using assms by (simp add: swap_player_unfold hasMatch_def)

theorem swap_player_no_match_roundtrip_witness:
  "swap [[Num 1, Num 2, Num 1], [Num 4, Num 5, Num 6], [Num 7, Num 8, Num 9]] ((0, 0), (0, 1)) True
     = Done [[Num 1, Num 2, Num 1], [Num 4, Num 5, Num 6], [Num 7, Num 8, Num 9]]"
proof -
  let ?g = "[[Num 1, Num 2, Num 1], [Num 4, Num 5, Num 6], [Num 7, Num 8, Num 9]]"
  let ?g2 = "[[Num 2, Num 1, Num 1], [Num 4, Num 5, Num 6], [Num 7, Num 8, Num 9]]"
  have 1: "in_bounds ?g (0, 0)" by (simp add: in_bounds_def)
  have 2: "in_bounds ?g (0, 1)" by (simp add: in_bounds_def)
  have 3: "swap ?g ((0, 0), (0, 1)) False = Done ?g2" by code_simp
  have 4: "findMatches ?g2 = Done []" by code_simp
  show ?thesis by (rule swap_player_no_match_roundtrip[OF 1 2 3 4])
qed

text \<open>
  C10. Every swap of two in-bounds cells, player-initiated or internal, committed or
  reverted, returns a grid with the same number of rows, the same row widths and the same
  multiset of tokens.
\<close>

theorem swap_preserves_shape_and_tokens:
  assumes a: "in_bounds g a" and b: "in_bounds g b"
  shows "\<exists>g'. swap g (a, b) playerSwap = Done g'
           \<and> length g' = length g \<and> map length g' = map length g \<and> tokens_of g' = tokens_of g"
proof -
  have raw: "swap g (a, b) False = Done (exchanged g a b)"
    by (rule swap_writes[OF a b])
  have keep: "length (exchanged g a b) = length g \<and> map length (exchanged g a b) = map length g
              \<and> tokens_of (exchanged g a b) = tokens_of g"
    using tokens_exchanged[OF a b] dims_exchanged[of g a b] by (simp add: exchanged_def Let_def)
  show ?thesis
  proof (cases playerSwap)
    case False
    then show ?thesis using raw keep by simp
  next
    case True
    obtain m where m: "hasMatch (exchanged g a b) = Done m"
      using hasMatch_total_in_bounds[OF in_bounds_exchanged[OF a]] by blast
    have "swap g (a, b) True = Done (if \<not> m then g else exchanged g a b)"
      by (simp add: swap_player_unfold raw m)
    then show ?thesis using True keep by simp
  qed
qed

theorem swap_preserves_shape_and_tokens_witness:
  "\<exists>g'. swap [[Num 1, Num 1, Num 2], [Num 4, Num 5, Num 1]] ((0, 2), (1, 2)) True = Done g'
     \<and> length g' = length [[Num 1, Num 1, Num 2], [Num 4, Num 5, Num 1]]
     \<and> map length g' = map length [[Num 1, Num 1, Num 2], [Num 4, Num 5, Num 1]]
     \<and> tokens_of g' = tokens_of [[Num 1, Num 1, Num 2], [Num 4, Num 5, Num 1]]"
proof -
  let ?g = "[[Num 1, Num 1, Num 2], [Num 4, Num 5, Num 1]]"
  have 1: "in_bounds ?g (0, 2)" by (simp add: in_bounds_def)
  have 2: "in_bounds ?g (1, 2)" by (simp add: in_bounds_def)
  show ?thesis by (rule swap_preserves_shape_and_tokens[OF 1 2])
qed

section \<open>Properties of structural enumeration\<close>

lemma take3_drop:
  "c + 3 \<le> length xs \<Longrightarrow> take 3 (drop c xs) = [xs ! c, xs ! (c + 1), xs ! (c + 2)]"
  by (rule nth_equalityI) (auto simp: nth_Cons' numeral_3_eq_3 less_Suc_eq)

lemma js_slice_three:
  "c + 3 \<le> length xs \<Longrightarrow> js_slice xs (int c) (int c + 3) = [xs ! c, xs ! (c + 1), xs ! (c + 2)]"
  using take3_drop[of c xs] by (simp add: js_slice_def Let_def min_def)

lemma js_slice_one:
  "r < length xs \<Longrightarrow> js_slice xs (int r) (int r + 1) = [xs ! r]"
  by (simp add: js_slice_def Let_def min_def take_Suc_conv_app_nth Cons_nth_drop_Suc[symmetric] del: Cons_nth_drop_Suc)

lemma remdups3: "length (remdups [a, b, c]) = 1 \<longleftrightarrow> a = b \<and> b = c"
  by auto

lemma lodash_range_nat: "lodash_range (int n) = map int [0..<n]"
  by (simp add: lodash_range_def)

lemma foldr_max_rect:
  "g \<noteq> [] \<Longrightarrow> \<forall>row \<in> set g. length row = w \<Longrightarrow> foldr (\<lambda>row m. max (length row) m) g 0 = w"
proof (induction g)
  case Nil
  then show ?case by simp
next
  case (Cons a g)
  then show ?case by (cases "g = []") auto
qed

lemma lodash_zip_rect:
  "rectangular g h w \<Longrightarrow> 0 < h \<Longrightarrow> lodash_zip g = map (\<lambda>i. map (\<lambda>row. row ! i) g) [0..<w]"
  unfolding rectangular_def lodash_zip_def
  by (subst foldr_max_rect[of g w]) (auto simp: js_nth_def)

lemma lodash_zip_rectangular:
  "rectangular g h w \<Longrightarrow> 0 < h \<Longrightarrow> rectangular (lodash_zip g) w h"
  by (auto simp: lodash_zip_rect) (auto simp: rectangular_def)

lemma lodash_zip_nth:
  "rectangular g h w \<Longrightarrow> r < h \<Longrightarrow> c < w \<Longrightarrow> lodash_zip g ! c ! r = g ! r ! c"
  by (auto simp: lodash_zip_rect) (auto simp: rectangular_def)

lemma match_of_chunk_row:
  assumes "r < length g" "c + 3 \<le> length (g ! r)"
  shows "match_of_chunk False (chunk_at g 3 1 True False (int r) (int c)) =
     (if g ! r ! c = g ! r ! (c + 1) \<and> g ! r ! (c + 1) = g ! r ! (c + 2)
      then [[(int r, int c), (int r, int c + 1), (int r, int c + 2)]] else [])"
  using assms by (simp add: match_of_chunk_def chunk_at_def js_slice_one js_slice_three Let_def)

lemma match_of_chunk_col:
  assumes "r < length g" "c + 3 \<le> length (g ! r)"
  shows "match_of_chunk True (chunk_at g 3 1 True True (int r) (int c)) =
     (if g ! r ! c = g ! r ! (c + 1) \<and> g ! r ! (c + 1) = g ! r ! (c + 2)
      then [[(int c, int r), (int c + 1, int r), (int c + 2, int r)]] else [])"
  using assms by (simp add: match_of_chunk_def chunk_at_def js_slice_one js_slice_three Let_def swap_pair_def)

lemma iterchunks_priv_rect:
  assumes "rectangular g h w" "0 < h" "2 \<le> w"
  shows "iterchunks_priv g (3, 1) True t = Done (windows g t h w)"
proof -
  obtain row0 rest where g: "g = row0 # rest" using assms by (cases g) (auto simp: rectangular_def)
  have l0: "length row0 = w" and lg: "Suc (length rest) = h"
    using assms g by (auto simp: rectangular_def)
  have a: "int w - 3 + 1 = int (w - 2)" using assms by simp
  have b: "1 + int (length rest) = int h" using lg by simp
  have "iterchunks_priv (row0 # rest) (3, 1) True t = Done (windows (row0 # rest) t h w)"
    by (simp add: iterchunks_priv_def windows_def Let_def l0 a b lodash_range_nat comp_def)
  then show ?thesis by (simp add: g)
qed

lemma set_findMatches_priv_rows:
  assumes "rectangular g h w"
  shows "set (findMatches_priv (windows g False h w) False) =
     {[(int r, int c), (int r, int c + 1), (int r, int c + 2)] | r c.
        r < h \<and> c + 2 < w \<and> g ! r ! c = g ! r ! (c + 1) \<and> g ! r ! (c + 1) = g ! r ! (c + 2)}"
proof -
  have len: "\<And>r. r < h \<Longrightarrow> length (g ! r) = w" "length g = h"
    using assms by (auto simp: rectangular_def)
  have m: "\<And>r c. r < h \<Longrightarrow> c < w - 2 \<Longrightarrow>
      match_of_chunk False (chunk_at g 3 1 True False (int r) (int c)) =
     (if g ! r ! c = g ! r ! (c + 1) \<and> g ! r ! (c + 1) = g ! r ! (c + 2)
      then [[(int r, int c), (int r, int c + 1), (int r, int c + 2)]] else [])"
    by (rule match_of_chunk_row) (auto simp: len)
  show ?thesis
    unfolding findMatches_priv_def windows_def
    apply (simp add: map_concat comp_def)
    apply (auto simp: m split: if_splits)
    done
qed

lemma set_findMatches_priv_cols:
  assumes "rectangular g h w" "0 < h"
  shows "set (findMatches_priv (windows (lodash_zip g) True w h) True) =
     {[(int r, int c), (int r + 1, int c), (int r + 2, int c)] | r c.
        c < w \<and> r + 2 < h \<and> g ! r ! c = g ! (r + 1) ! c \<and> g ! (r + 1) ! c = g ! (r + 2) ! c}"
proof -
  let ?z = "lodash_zip g"
  have rz: "rectangular ?z w h" by (rule lodash_zip_rectangular[OF assms])
  have len: "\<And>c. c < w \<Longrightarrow> length (?z ! c) = h" "length ?z = w"
    using rz by (auto simp: rectangular_def)
  have m: "\<And>r c. c < w \<Longrightarrow> r < h - 2 \<Longrightarrow>
      match_of_chunk True (chunk_at ?z 3 1 True True (int c) (int r)) =
     (if g ! r ! c = g ! (r + 1) ! c \<and> g ! (r + 1) ! c = g ! (r + 2) ! c
      then [[(int r, int c), (int r + 1, int c), (int r + 2, int c)]] else [])"
  proof -
    fix r c assume c: "c < w" and r: "r < h - 2"
    have "match_of_chunk True (chunk_at ?z 3 1 True True (int c) (int r)) =
     (if ?z ! c ! r = ?z ! c ! (r + 1) \<and> ?z ! c ! (r + 1) = ?z ! c ! (r + 2)
      then [[(int r, int c), (int r + 1, int c), (int r + 2, int c)]] else [])"
      using c r by (intro match_of_chunk_col) (auto simp: len)
    moreover have "?z ! c ! r = g ! r ! c" "?z ! c ! (r + 1) = g ! (r + 1) ! c"
      "?z ! c ! (r + 2) = g ! (r + 2) ! c"
      using c r by (auto intro!: lodash_zip_nth[OF assms(1)])
    ultimately show "match_of_chunk True (chunk_at ?z 3 1 True True (int c) (int r)) =
     (if g ! r ! c = g ! (r + 1) ! c \<and> g ! (r + 1) ! c = g ! (r + 2) ! c
      then [[(int r, int c), (int r + 1, int c), (int r + 2, int c)]] else [])"
      by simp
  qed
  show ?thesis
    unfolding findMatches_priv_def windows_def
    apply (simp add: map_concat comp_def)
    apply (auto simp: m split: if_splits)
    done
qed

lemma findMatches_rect:
  assumes "rectangular g h w" "2 \<le> h" "2 \<le> w"
  shows "findMatches g =
     Done (findMatches_priv (windows g False h w) False
           @ findMatches_priv (windows (lodash_zip g) True w h) True)"
proof -
  have h0: "0 < h" and w0: "0 < w" using assms by auto
  have rz: "rectangular (lodash_zip g) w h" by (rule lodash_zip_rectangular[OF assms(1) h0])
  show ?thesis
    by (simp add: findMatches_def iterchunks_priv_rect[OF assms(1) h0 assms(3)]
        iterchunks_priv_rect[OF rz w0 assms(2)])
qed

lemma nat_int_add: "nat (int r + 1) = r + 1" "nat (int r + 2) = r + 2"
  by simp_all

text \<open>
  C6, as amended. On a rectangular grid with at least two rows and two columns,
  \<open>findMatches\<close> returns, and every group it returns is a list of exactly three distinct
  in-bounds coordinates, consecutive along one row or one column, holding equal tokens;
  and every window of three equal cells in a row or in a column yields the group of its
  three coordinates, a column's window with its coordinates transposed back.
\<close>

theorem findMatches_sound_complete:
  assumes rect: "rectangular g h w" and h: "2 \<le> h" and w: "2 \<le> w"
  shows "\<exists>ms. findMatches g = Done ms
     \<and> (\<forall>m \<in> set ms. length m = 3 \<and> distinct m \<and> straight_triple g m)
     \<and> (\<forall>r c. row_window_equal g r c \<longrightarrow>
            [(int r, int c), (int r, int c + 1), (int r, int c + 2)] \<in> set ms)
     \<and> (\<forall>r c. col_window_equal g r c \<longrightarrow>
            [(int r, int c), (int r + 1, int c), (int r + 2, int c)] \<in> set ms)"
proof -
  have h0: "0 < h" using h by simp
  let ?H = "findMatches_priv (windows g False h w) False"
  let ?V = "findMatches_priv (windows (lodash_zip g) True w h) True"
  have fm: "findMatches g = Done (?H @ ?V)" by (rule findMatches_rect[OF assms])
  have H: "set ?H = {[(int r, int c), (int r, int c + 1), (int r, int c + 2)] | r c.
        r < h \<and> c + 2 < w \<and> g ! r ! c = g ! r ! (c + 1) \<and> g ! r ! (c + 1) = g ! r ! (c + 2)}"
    by (rule set_findMatches_priv_rows[OF rect])
  have V: "set ?V = {[(int r, int c), (int r + 1, int c), (int r + 2, int c)] | r c.
        c < w \<and> r + 2 < h \<and> g ! r ! c = g ! (r + 1) ! c \<and> g ! (r + 1) ! c = g ! (r + 2) ! c}"
    by (rule set_findMatches_priv_cols[OF rect h0])
  have len: "length g = h" "\<And>r. r < h \<Longrightarrow> length (g ! r) = w"
    using rect by (auto simp: rectangular_def)
  have sH: "\<forall>m \<in> set ?H. length m = 3 \<and> distinct m \<and> straight_triple g m"
    unfolding H by (auto simp: straight_triple_def in_bounds_def cell_def len nat_int_add)
  have sV: "\<forall>m \<in> set ?V. length m = 3 \<and> distinct m \<and> straight_triple g m"
    unfolding V by (auto simp: straight_triple_def in_bounds_def cell_def len nat_int_add)
  have cH: "\<forall>r c. row_window_equal g r c \<longrightarrow>
            [(int r, int c), (int r, int c + 1), (int r, int c + 2)] \<in> set ?H"
    unfolding H by (auto simp: row_window_equal_def len)
  have cV: "\<forall>r c. col_window_equal g r c \<longrightarrow>
            [(int r, int c), (int r + 1, int c), (int r + 2, int c)] \<in> set ?V"
    unfolding V by (auto simp: col_window_equal_def len)
  show ?thesis
    using fm sH sV cH cV by (intro exI[of _ "?H @ ?V"]) (simp add: ball_Un)
qed

theorem findMatches_sound_complete_witness:
  "rectangular [[Num 1, Num 1, Num 1], [Num 2, Num 3, Num 1], [Num 3, Num 2, Num 1]] 3 3
   \<and> row_window_equal [[Num 1, Num 1, Num 1], [Num 2, Num 3, Num 1], [Num 3, Num 2, Num 1]] 0 0
   \<and> col_window_equal [[Num 1, Num 1, Num 1], [Num 2, Num 3, Num 1], [Num 3, Num 2, Num 1]] 0 2
   \<and> (\<exists>ms. findMatches [[Num 1, Num 1, Num 1], [Num 2, Num 3, Num 1], [Num 3, Num 2, Num 1]] = Done ms
     \<and> ms \<noteq> []
     \<and> (\<forall>m \<in> set ms. length m = 3 \<and> distinct m
           \<and> straight_triple [[Num 1, Num 1, Num 1], [Num 2, Num 3, Num 1], [Num 3, Num 2, Num 1]] m)
     \<and> [(0, 0), (0, 1), (0, 2)] \<in> set ms \<and> [(0, 2), (1, 2), (2, 2)] \<in> set ms)"
proof -
  let ?g = "[[Num 1, Num 1, Num 1], [Num 2, Num 3, Num 1], [Num 3, Num 2, Num 1]]"
  have r: "rectangular ?g 3 3" by (simp add: rectangular_def)
  have rw: "row_window_equal ?g 0 0" by (simp add: row_window_equal_def)
  have cw: "col_window_equal ?g 0 2" by (simp add: col_window_equal_def)
  obtain ms where ms: "findMatches ?g = Done ms"
    "\<forall>m \<in> set ms. length m = 3 \<and> distinct m \<and> straight_triple ?g m"
    "\<forall>r c. row_window_equal ?g r c \<longrightarrow>
        [(int r, int c), (int r, int c + 1), (int r, int c + 2)] \<in> set ms"
    "\<forall>r c. col_window_equal ?g r c \<longrightarrow>
        [(int r, int c), (int r + 1, int c), (int r + 2, int c)] \<in> set ms"
    using findMatches_sound_complete[OF r] by auto
  have a: "[(0, 0), (0, 1), (0, 2)] \<in> set ms" using ms(3) rw by force
  have b: "[(0, 2), (1, 2), (2, 2)] \<in> set ms" using ms(4) cw by force
  have ne: "ms \<noteq> []" using a by auto
  show ?thesis using r rw cw ms(1) ms(2) a b ne by blast
qed

text \<open>
  On a grid of one cell the window of three is cut short to that cell, which counts as
  all equal, and the two groups returned name cells that do not exist.
\<close>

theorem findMatches_single_cell_counterexample:
  "findMatches [[Num 1]] = Done [[(0, 0), (0, 1), (0, 2)], [(0, 0), (1, 0), (2, 0)]]
     \<and> \<not> in_bounds [[Num 1]] (0, 1)"
  by code_simp

section \<open>Properties of the wide scan\<close>

lemma max_exceeds_two_iff: "max_exceeds_two xs \<longleftrightarrow> (\<exists>x \<in> set xs. 2 < x)"
proof (cases xs)
  case Nil
  then show ?thesis by (simp add: max_exceeds_two_def)
next
  case (Cons x rest)
  have "fold max rest x = Max (set (x # rest))" by (rule Max.set_eq_fold[symmetric])
  then show ?thesis using Cons by (simp add: max_exceeds_two_def Max_gr_iff del: Max_insert)
qed

lemma hasMatchInSingleRow_iff:
  "hasMatchInSingleRow row \<longleftrightarrow> (\<exists>v \<in> set row. 2 < count_list (map key_of row) (key_of v))"
  by (auto simp: hasMatchInSingleRow_def max_exceeds_two_iff countBy_values_def Let_def)

lemma single_row_left: "hasMatchInSingleRow [a, a, a, d]"
  by (simp add: hasMatchInSingleRow_iff)

lemma single_row_right: "hasMatchInSingleRow [d, a, a, a]"
  by (simp add: hasMatchInSingleRow_iff)

lemma take4_drop:
  "c + 4 \<le> length xs \<Longrightarrow> take 4 (drop c xs) = [xs ! c, xs ! (c + 1), xs ! (c + 2), xs ! (c + 3)]"
  by (rule nth_equalityI) (auto simp: nth_Cons' numeral_eq_Suc less_Suc_eq)

lemma js_slice_four:
  "c + 4 \<le> length xs \<Longrightarrow>
   js_slice xs (int c) (int c + 4) = [xs ! c, xs ! (c + 1), xs ! (c + 2), xs ! (c + 3)]"
  using take4_drop[of c xs] by (simp add: js_slice_def Let_def min_def)

lemma take2_drop:
  "r + 2 \<le> length xs \<Longrightarrow> take 2 (drop r xs) = [xs ! r, xs ! (r + 1)]"
  by (rule nth_equalityI) (auto simp: nth_Cons' numeral_eq_Suc less_Suc_eq)

lemma js_slice_two:
  "r + 2 \<le> length xs \<Longrightarrow> js_slice xs (int r) (int r + 2) = [xs ! r, xs ! (r + 1)]"
  using take2_drop[of r xs] by (simp add: js_slice_def Let_def min_def)

lemma iterchunks_priv_wide_rect:
  assumes "rectangular g h w" "2 \<le> h" "4 \<le> w"
  shows "iterchunks_priv g (4, 2) False t = Done (wide_windows g t h w)"
proof -
  obtain row0 rest where g: "g = row0 # rest" using assms by (cases g) (auto simp: rectangular_def)
  have l0: "length row0 = w" and lg: "Suc (length rest) = h"
    using assms g by (auto simp: rectangular_def)
  have a: "int w - 4 + 1 = int (w - 3)" using assms by simp
  have b: "length rest = h - 1" using lg by simp
  have "iterchunks_priv (row0 # rest) (4, 2) False t = Done (wide_windows (row0 # rest) t h w)"
    by (simp add: iterchunks_priv_def wide_windows_def Let_def l0 a b lodash_range_nat comp_def)
  then show ?thesis by (simp add: g)
qed

lemma iterchunks_priv_total: "g \<noteq> [] \<Longrightarrow> \<exists>cs. iterchunks_priv g cl b t = Done cs"
  by (cases g) (simp_all add: iterchunks_priv_def Let_def)

lemma hasPotentialMatch_single_row:
  assumes "iterchunks_priv g (4, 2) False False = Done a"
    and "iterchunks_priv (lodash_zip g) (4, 2) False True = Done b"
    and "ch \<in> set a \<union> set b" and "row \<in> set (rows ch)" and "hasMatchInSingleRow row"
  shows "hasPotentialMatch g = Done True"
  using assms by (auto simp: hasPotentialMatch_def iterchunks_def Let_def list_ex_iff)

text \<open>A row run inside a rectangle with at least four columns and two rows lies in a window.\<close>

lemma row_run_in_wide_window:
  assumes rect: "rectangular g h w" and h: "2 \<le> h" and w: "4 \<le> w"
    and run: "row_window_equal g r c"
  shows "\<exists>ch \<in> set (wide_windows g t h w). \<exists>row \<in> set (rows ch). hasMatchInSingleRow row"
proof -
  have len: "length g = h" "\<And>r. r < h \<Longrightarrow> length (g ! r) = w"
    using rect by (auto simp: rectangular_def)
  have r: "r < h" and c: "c + 2 < w"
    and eq: "g ! r ! c = g ! r ! (c + 1)" "g ! r ! (c + 1) = g ! r ! (c + 2)"
    using run len by (auto simp: row_window_equal_def)
  define hi where "hi = min r (h - 2)"
  define wi where "wi = min c (w - 4)"
  have hi: "hi < h - 1" "hi + 2 \<le> length g" "r = hi \<or> r = hi + 1"
    using r h by (auto simp: hi_def len min_def)
  have wi: "wi < w - 3" "wi + 4 \<le> w" "c = wi \<or> c = wi + 1"
    using c w by (auto simp: wi_def min_def)
  let ?ch = "chunk_at g 4 2 False t (int hi) (int wi)"
  have mem: "?ch \<in> set (wide_windows g t h w)"
    using hi(1) wi(1) by (auto simp: wide_windows_def intro!: bexI[of _ hi] image_eqI[of _ _ wi])
  have lr: "length (g ! r) = w" using r by (simp add: len)
  have rows: "rows ?ch = [js_slice (g ! hi) (int wi) (int wi + 4),
                          js_slice (g ! (hi + 1)) (int wi) (int wi + 4)]"
    using hi(2) by (simp add: chunk_at_def js_slice_two)
  let ?row = "js_slice (g ! r) (int wi) (int wi + 4)"
  have rin: "?row \<in> set (rows ?ch)" using hi(3) by (auto simp: rows)
  have "?row = [g ! r ! wi, g ! r ! (wi + 1), g ! r ! (wi + 2), g ! r ! (wi + 3)]"
    using wi(2) lr by (simp add: js_slice_four)
  then have "hasMatchInSingleRow ?row"
    using wi(3) eq by (auto simp: single_row_left single_row_right numeral_eq_Suc)
  then show ?thesis using mem rin by blast
qed

lemma col_run_is_row_run_of_zip:
  assumes rect: "rectangular g h w" and run: "col_window_equal g r c"
  shows "row_window_equal (lodash_zip g) c r"
proof -
  have len: "length g = h" "\<And>r. r < h \<Longrightarrow> length (g ! r) = w"
    using rect by (auto simp: rectangular_def)
  have r: "r + 2 < h" and c: "c < w"
    and eq: "g ! r ! c = g ! (r + 1) ! c" "g ! (r + 1) ! c = g ! (r + 2) ! c"
    using run len by (auto simp: col_window_equal_def)
  have h0: "0 < h" using r by simp
  have rz: "rectangular (lodash_zip g) w h" by (rule lodash_zip_rectangular[OF rect h0])
  have lz: "length (lodash_zip g) = w" "length (lodash_zip g ! c) = h"
    using rz c by (auto simp: rectangular_def)
  have "lodash_zip g ! c ! r = g ! r ! c" "lodash_zip g ! c ! (r + 1) = g ! (r + 1) ! c"
    "lodash_zip g ! c ! (r + 2) = g ! (r + 2) ! c"
    using c r by (auto intro!: lodash_zip_nth[OF rect])
  then show ?thesis using eq r c by (simp add: row_window_equal_def lz)
qed

text \<open>
  C4, as amended. On a rectangular grid, the wide scan returns true whenever three equal
  tokens stand side by side in a row and the grid has at least four columns and two rows,
  and whenever three equal tokens stand one above the other in a column and the grid has
  at least four rows and two columns; so on every grid with both dimensions at least 4 no
  straight run is missed.
\<close>

theorem wide_scan_detects_runs:
  assumes rect: "rectangular g h w"
    and run: "(row_window_equal g r c \<and> 2 \<le> h \<and> 4 \<le> w)
              \<or> (col_window_equal g r c \<and> 4 \<le> h \<and> 2 \<le> w)"
  shows "hasPotentialMatch g = Done True"
proof -
  have h0: "0 < h" and w0: "0 < w" using run by auto
  have gne: "g \<noteq> []" using rect h0 by (auto simp: rectangular_def)
  have rz: "rectangular (lodash_zip g) w h" by (rule lodash_zip_rectangular[OF rect h0])
  have zne: "lodash_zip g \<noteq> []" using rz w0 by (auto simp: rectangular_def)
  obtain a where a: "iterchunks_priv g (4, 2) False False = Done a"
    using iterchunks_priv_total[OF gne] by blast
  obtain b where b: "iterchunks_priv (lodash_zip g) (4, 2) False True = Done b"
    using iterchunks_priv_total[OF zne] by blast
  from run show ?thesis
  proof
    assume H: "row_window_equal g r c \<and> 2 \<le> h \<and> 4 \<le> w"
    then have "a = wide_windows g False h w"
      using a iterchunks_priv_wide_rect[OF rect, of False] by simp
    then obtain ch row where "ch \<in> set a" "row \<in> set (rows ch)" "hasMatchInSingleRow row"
      using row_run_in_wide_window[OF rect, of r c False] H by blast
    then show ?thesis using hasPotentialMatch_single_row[OF a b] by blast
  next
    assume V: "col_window_equal g r c \<and> 4 \<le> h \<and> 2 \<le> w"
    then have "b = wide_windows (lodash_zip g) True w h"
      using b iterchunks_priv_wide_rect[OF rz, of True] by simp
    moreover have "row_window_equal (lodash_zip g) c r"
      using col_run_is_row_run_of_zip[OF rect] V by blast
    ultimately obtain ch row where "ch \<in> set b" "row \<in> set (rows ch)" "hasMatchInSingleRow row"
      using row_run_in_wide_window[OF rz, of c r True] V by blast
    then show ?thesis using hasPotentialMatch_single_row[OF a b] by blast
  qed
qed

theorem wide_scan_detects_runs_witness:
  "rectangular [[Num 0, Num 1, Num 1, Num 1], [Num 2, Num 3, Num 4, Num 5]] 2 4
   \<and> row_window_equal [[Num 0, Num 1, Num 1, Num 1], [Num 2, Num 3, Num 4, Num 5]] 0 1
   \<and> hasPotentialMatch [[Num 0, Num 1, Num 1, Num 1], [Num 2, Num 3, Num 4, Num 5]] = Done True"
proof -
  let ?g = "[[Num 0, Num 1, Num 1, Num 1], [Num 2, Num 3, Num 4, Num 5]]"
  have r: "rectangular ?g 2 4" by (simp add: rectangular_def)
  have rw: "row_window_equal ?g 0 1" by (simp add: row_window_equal_def)
  have "hasPotentialMatch ?g = Done True"
    using wide_scan_detects_runs[OF r, of 0 1] rw by simp
  then show ?thesis using r rw by simp
qed

text \<open>
  A grid of three columns has no window four cells wide, in either orientation, so the
  scan sees nothing of the run in its first row.
\<close>

theorem wide_scan_three_by_three_counterexample:
  "rectangular [[Num 1, Num 1, Num 1], [Num 2, Num 3, Num 4], [Num 5, Num 6, Num 7]] 3 3
   \<and> row_window_equal [[Num 1, Num 1, Num 1], [Num 2, Num 3, Num 4], [Num 5, Num 6, Num 7]] 0 0
   \<and> hasPotentialMatch [[Num 1, Num 1, Num 1], [Num 2, Num 3, Num 4], [Num 5, Num 6, Num 7]]
       = Done False"
  by code_simp

section \<open>Properties of the merger\<close>

text \<open>
  C5. The merger makes one pass over the remaining groups for each seed, so a group that
  overlaps the accumulator only through a group met later in the pass is left behind. On
  the grid below structural enumeration returns the top row, the bottom row and the left
  column, in that order; the merger returns two groups that share the cell \<open>(2, 0)\<close>.
\<close>

theorem combineMatches_chain_not_disjoint:
  "findMatches [[Num 1, Num 1, Num 1], [Num 1, Num 2, Num 3], [Num 1, Num 1, Num 1]]
         = Done [[(0, 0), (0, 1), (0, 2)], [(2, 0), (2, 1), (2, 2)], [(0, 0), (1, 0), (2, 0)]]
  \<and> combineMatches [[(0, 0), (0, 1), (0, 2)], [(2, 0), (2, 1), (2, 2)], [(0, 0), (1, 0), (2, 0)]]
     = [[(0, 0), (0, 1), (0, 2), (1, 0), (2, 0)], [(2, 0), (2, 1), (2, 2)]]
  \<and> overlap [(0, 0), (0, 1), (0, 2), (1, 0), (2, 0)] [(2, 0), (2, 1), (2, 2)]"
  by code_simp

section \<open>Properties of cascade resolution\<close>

lemma bind_run_Done [simp]: "bind_run (Done x) f = f x"
  by (simp add: bind_run_def)

lemma get_orb_rect:
  "rectangular g h w \<Longrightarrow> r < h \<Longrightarrow> c < w \<Longrightarrow> get_orb g (int r) (int c) = Done (g ! r ! c)"
  by (simp add: rectangular_def get_orb_def js_row_def js_nth_def)

lemma set_orb_rect:
  "rectangular g h w \<Longrightarrow> r < h \<Longrightarrow> c < w \<Longrightarrow>
   set_orb g (int r) (int c) v = Done (g[r := (g ! r)[c := v]])"
  by (simp add: rectangular_def set_orb_def js_row_def js_update_def)

lemma rectangular_nth:
  "rectangular g h w \<longleftrightarrow> length g = h \<and> (\<forall>r < h. length (g ! r) = w)"
  by (auto simp: rectangular_def all_set_conv_all_nth)

lemma rectangular_update:
  "rectangular g h w \<Longrightarrow> rectangular (g[r := (g ! r)[c := v]]) h w"
  by (simp add: rectangular_nth length_nth_update_cell)

lemma rect_cell_in_concat:
  "rectangular g h w \<Longrightarrow> r < h \<Longrightarrow> c < w \<Longrightarrow> g ! r ! c \<in> set (concat g)"
  by (auto simp: rectangular_def intro!: bexI[of _ "g ! r"])

lemma sweep_cell_no_marker:
  assumes "rectangular g h w" "cleared \<notin> set (concat g)" "r < h" "c < w"
  shows "sweep_cell r d c (g, rs) = Done (g, rs)"
  using assms rect_cell_in_concat[OF assms(1,3,4)]
  by (auto simp: sweep_cell_def get_orb_rect)

lemma sweep_cols_no_marker:
  assumes "rectangular g h w" "cleared \<notin> set (concat g)" "r < h" "\<forall>c \<in> set cols. c < w"
  shows "sweep_cols r d cols (g, rs) = Done (g, rs)"
  using assms(4) by (induction cols) (simp_all add: sweep_cell_no_marker[OF assms(1,2,3)])

lemma sweep_rows_no_marker:
  assumes "rectangular g h w" "cleared \<notin> set (concat g)" "\<forall>r \<in> set rws. r < h"
  shows "sweep_rows rws w d (g, rs) = Done (g, rs)"
  using assms(3) by (induction rws) (simp_all add: sweep_cols_no_marker[OF assms(1,2)])

text \<open>
  Where the grid has \<open>height\<close> rows of \<open>width\<close> cells, as on a square board, and no cell
  holds the cleared marker, \<open>evaluate\<close> on a match-free grid, called without a match
  list, with the empty list, or with the merged groups of the grid, returns no event, the
  same board and the untouched random source.
\<close>

lemma evaluate_no_match_noop_well_formed:
  assumes wf: "well_formed b" and clean: "cleared \<notin> set (concat (orbs b))"
    and none: "hasMatch (orbs b) = Done False" and found: "findMatches (orbs b) = Done ms"
  shows "evaluate b None dropOptions rs = Done ([], b, rs)
       \<and> evaluate b (Some []) dropOptions rs = Done ([], b, rs)
       \<and> evaluate b (Some (combineMatches ms)) dropOptions rs = Done ([], b, rs)"
proof -
  have ms: "ms = []" using none found by (simp add: hasMatch_def)
  have sw: "sweep_rows [0..<height b] (width b) d (orbs b, rs) = Done (orbs b, rs)" for d
    using wf clean by (intro sweep_rows_no_marker[where h = "height b"]) (auto simp: well_formed_def)
  show ?thesis by (simp add: evaluate_def Let_def sw ms)
qed

lemma length_column [simp]: "length (column g c) = length g"
  by (simp add: column_def)

lemma column_nth: "r < length g \<Longrightarrow> column g c ! r = g ! r ! c"
  by (simp add: column_def)

lemma column_update_same:
  "r < length g \<Longrightarrow> c < length (g ! r) \<Longrightarrow>
   column (g[r := (g ! r)[c := v]]) c = (column g c)[r := v]"
  by (rule nth_equalityI) (auto simp: column_def nth_list_update)

lemma column_update_other:
  "c' \<noteq> c \<Longrightarrow> column (g[r := (g ! r)[c := v]]) c' = column g c'"
  by (cases "r < length g")
    (auto simp: column_def nth_list_update list_update_beyond intro!: nth_equalityI)

lemma sample_mem: "d \<noteq> [] \<Longrightarrow> fst (sample d rs) \<in> set d"
  by (simp add: sample_def)

lemma shift_down_column:
  assumes "rectangular g h w" "z < h" "c < w"
  shows "\<exists>g'. shift_down g z c d rs = Done (g', snd (sample d rs)) \<and> rectangular g' h w
           \<and> column g' c = fst (sample d rs) # take z (column g c) @ drop (Suc z) (column g c)
           \<and> (\<forall>c'. c' \<noteq> c \<longrightarrow> column g' c' = column g c')"
  using assms
proof (induction z arbitrary: g)
  case 0
  let ?g1 = "g[0 := (g ! 0)[c := fst (sample d rs)]]"
  have len: "0 < length g" "c < length (g ! 0)" using 0 by (auto simp: rectangular_nth)
  have "set_orb g 0 (int c) (fst (sample d rs)) = Done ?g1"
    using set_orb_rect[OF 0(1) 0(2) 0(3), of "fst (sample d rs)"] by simp
  moreover have "column ?g1 c = fst (sample d rs) # drop (Suc 0) (column g c)"
    using len by (cases g) (auto simp: column_def)
  ultimately show ?case
    using rectangular_update[OF 0(1), of 0 c] by (simp add: column_update_other)
next
  case (Suc z)
  let ?v = "column g c"
  let ?g1 = "g[Suc z := (g ! Suc z)[c := g ! z ! c]]"
  have len: "Suc z < length g" "c < length (g ! Suc z)" "z < h"
    using Suc.prems by (auto simp: rectangular_nth)
  have r1: "rectangular ?g1 h w" by (rule rectangular_update[OF Suc.prems(1)])
  obtain g' where g': "shift_down ?g1 z c d rs = Done (g', snd (sample d rs))"
    "rectangular g' h w"
    "column g' c = fst (sample d rs) # take z (column ?g1 c) @ drop (Suc z) (column ?g1 c)"
    "\<forall>c'. c' \<noteq> c \<longrightarrow> column g' c' = column ?g1 c'"
    using Suc.IH[OF r1 len(3) Suc.prems(3)] by blast
  have v1: "column ?g1 c = ?v[Suc z := ?v ! z]"
    using len by (simp add: column_update_same column_nth)
  have lv: "Suc z < length ?v" using len by simp
  have "drop (Suc z) (?v[Suc z := ?v ! z]) = ?v ! z # drop (Suc (Suc z)) ?v"
    using lv by (simp add: drop_update_cancel Cons_nth_drop_Suc[symmetric] del: Cons_nth_drop_Suc)
  moreover have "take (Suc z) ?v = take z ?v @ [?v ! z]"
    using lv by (simp add: take_Suc_conv_app_nth)
  ultimately have col: "column g' c = fst (sample d rs) # take (Suc z) ?v @ drop (Suc (Suc z)) ?v"
    by (simp add: g'(3) v1)
  have run: "shift_down g (Suc z) c d rs = shift_down ?g1 z c d rs"
    using get_orb_rect[OF Suc.prems(1) len(3) Suc.prems(3)]
      set_orb_rect[OF Suc.prems(1) Suc.prems(2) Suc.prems(3), of "g ! z ! c"] by simp
  show ?case using g'(1,2,4) col run by (simp add: column_update_other)
qed

lemma drained_0: "drained d v0 0 v0"
  by (simp add: drained_def)

lemma drained_prefix_length:
  assumes "length v = length v0" "v = news @ keep @ drop r v0" "r \<le> length v0"
  shows "length news + length keep = r"
proof -
  have "length v = length news + length keep + (length v0 - r)" by (simp add: assms(2))
  then show ?thesis using assms(1,3) by simp
qed

lemma drained_nth:
  assumes "drained d v0 r v" "r < length v0"
  shows "v ! r = v0 ! r"
proof -
  obtain news where n: "v = news @ filter (\<lambda>t. t \<noteq> cleared) (take r v0) @ drop r v0"
    and l: "length v = length v0" using assms(1) by (auto simp: drained_def)
  have "length (news @ filter (\<lambda>t. t \<noteq> cleared) (take r v0)) = r"
    using drained_prefix_length[OF l n] assms(2) by simp
  then have "v ! r = drop r v0 ! 0"
    using n by (metis append.assoc nth_append_length_plus add.right_neutral)
  then show ?thesis using assms(2) by simp
qed

lemma drained_skip:
  assumes "drained d v0 r v" "r < length v0" "v0 ! r \<noteq> cleared"
  shows "drained d v0 (Suc r) v"
proof -
  obtain news where n: "v = news @ filter (\<lambda>t. t \<noteq> cleared) (take r v0) @ drop r v0"
    and l: "length v = length v0" and s: "set news \<subseteq> set d"
    using assms(1) by (auto simp: drained_def)
  have "filter (\<lambda>t. t \<noteq> cleared) (take (Suc r) v0) @ drop (Suc r) v0
        = filter (\<lambda>t. t \<noteq> cleared) (take r v0) @ drop r v0"
    using assms(2,3) by (simp add: take_Suc_conv_app_nth Cons_nth_drop_Suc)
  then show ?thesis using n l s unfolding drained_def by metis
qed

lemma drained_shift:
  assumes "drained d v0 r v" "r < length v0" "v0 ! r = cleared" "s \<in> set d"
  shows "drained d v0 (Suc r) (s # take r v @ drop (Suc r) v)"
proof -
  obtain news where n: "v = news @ filter (\<lambda>t. t \<noteq> cleared) (take r v0) @ drop r v0"
    and l: "length v = length v0" and sub: "set news \<subseteq> set d"
    using assms(1) by (auto simp: drained_def)
  let ?keep = "filter (\<lambda>t. t \<noteq> cleared) (take r v0)"
  define p where "p = news @ ?keep"
  have pl: "length p = r"
    using drained_prefix_length[OF l n] assms(2) by (simp add: p_def)
  have v: "v = p @ drop r v0" using n by (simp add: p_def)
  have t: "take r v = news @ ?keep" using pl by (simp add: v) (simp add: p_def)
  have dr: "drop (Suc r) v = drop (Suc r) v0"
  proof -
    have "drop r v = drop r v0" using pl by (simp add: v)
    then have "drop 1 (drop r v) = drop 1 (drop r v0)" by simp
    then show ?thesis by simp
  qed
  have k: "filter (\<lambda>t. t \<noteq> cleared) (take (Suc r) v0) = ?keep"
    using assms(2,3) by (simp add: take_Suc_conv_app_nth)
  have "s # take r v @ drop (Suc r) v
        = (s # news) @ filter (\<lambda>t. t \<noteq> cleared) (take (Suc r) v0) @ drop (Suc r) v0"
    by (simp add: t dr k)
  moreover have "set (s # news) \<subseteq> set d" using sub assms(4) by simp
  moreover have "length (s # take r v @ drop (Suc r) v) = length v0"
    using l assms(2) by simp
  ultimately show ?thesis unfolding drained_def by blast
qed

lemma count_list_plus_others:
  "count_list xs x + length (filter (\<lambda>t. t \<noteq> x) xs) = length xs"
  by (induction xs) auto

lemma drained_final:
  assumes "drained d v0 (length v0) v" "cleared \<notin> set d"
  shows "cleared \<notin> set v
       \<and> (\<exists>news. set news \<subseteq> set d \<and> length news = count_list v0 cleared
              \<and> v = news @ filter (\<lambda>t. t \<noteq> cleared) v0)"
proof -
  obtain news where n: "v = news @ filter (\<lambda>t. t \<noteq> cleared) v0"
    and l: "length v = length v0" and sub: "set news \<subseteq> set d"
    using assms(1) by (auto simp: drained_def)
  have "length news + length (filter (\<lambda>t. t \<noteq> cleared) v0) = length v0"
    using n l by simp
  then have "length news = count_list v0 cleared"
    using count_list_plus_others[of v0 cleared] by simp
  moreover have "cleared \<notin> set v" using n sub assms(2) by auto
  ultimately show ?thesis using n sub by blast
qed

lemma bind_run_assoc: "bind_run (bind_run m f) k = bind_run m (\<lambda>x. bind_run (f x) k)"
  by (cases m) (simp_all add: bind_run_def)

lemma sweep_cols_append:
  "sweep_cols r d (xs @ ys) st = bind_run (sweep_cols r d xs st) (sweep_cols r d ys)"
proof (induction xs arbitrary: st)
  case Nil
  then show ?case by simp
next
  case (Cons x xs)
  have "sweep_cols r d (xs @ ys) = (\<lambda>st. bind_run (sweep_cols r d xs st) (sweep_cols r d ys))"
    by (rule ext) (rule Cons.IH)
  then show ?case by (simp add: bind_run_assoc)
qed

lemma sweep_rows_append:
  "sweep_rows (xs @ ys) w d st = bind_run (sweep_rows xs w d st) (sweep_rows ys w d)"
proof (induction xs arbitrary: st)
  case Nil
  then show ?case by simp
next
  case (Cons x xs)
  have "sweep_rows (xs @ ys) w d = (\<lambda>st. bind_run (sweep_rows xs w d st) (sweep_rows ys w d))"
    by (rule ext) (rule Cons.IH)
  then show ?case by (simp add: bind_run_assoc)
qed

lemma sweep_cell_inv:
  assumes rg: "rectangular g h w" and r0: "length g0 = h" and r: "r < h" and c: "c < w"
    and d: "d \<noteq> []" and inv: "sweep_inv d g0 w r c g"
  shows "\<exists>g' rs'. sweep_cell r d c (g, rs) = Done (g', rs') \<and> rectangular g' h w
           \<and> sweep_inv d g0 w r (Suc c) g'"
proof -
  have "drained d (column g0 c) (if c < c then Suc r else r) (column g c)"
    using inv c unfolding sweep_inv_def by blast
  then have dc: "drained d (column g0 c) r (column g c)" by simp
  have lr: "r < length (column g0 c)" using r r0 by simp
  have lg: "r < length g" using rg r by (simp add: rectangular_nth)
  have cell: "g ! r ! c = column g0 c ! r"
    using drained_nth[OF dc lr] lg by (simp add: column_nth)
  have get: "get_orb g (int r) (int c) = Done (g ! r ! c)" by (rule get_orb_rect[OF rg r c])
  show ?thesis
  proof (cases "g ! r ! c = cleared")
    case False
    have "drained d (column g0 c) (Suc r) (column g c)"
      using drained_skip[OF dc lr] False cell by simp
    then have "sweep_inv d g0 w r (Suc c) g"
      using inv by (auto simp: sweep_inv_def less_Suc_eq)
    then show ?thesis using False rg get by (simp add: sweep_cell_def)
  next
    case True
    obtain g' where g': "shift_down g r c d rs = Done (g', snd (sample d rs))"
      "rectangular g' h w"
      "column g' c = fst (sample d rs) # take r (column g c) @ drop (Suc r) (column g c)"
      "\<forall>c'. c' \<noteq> c \<longrightarrow> column g' c' = column g c'"
      using shift_down_column[OF rg r c] by blast
    have "drained d (column g0 c) (Suc r) (column g' c)"
      using drained_shift[OF dc lr _ sample_mem[OF d]] True cell by (simp add: g'(3))
    then have "sweep_inv d g0 w r (Suc c) g'"
      using inv g'(4) by (auto simp: sweep_inv_def less_Suc_eq)
    then show ?thesis using True g'(1,2) get by (simp add: sweep_cell_def)
  qed
qed

lemma sweep_cols_inv:
  assumes r0: "length g0 = h" and r: "r < h" and d: "d \<noteq> []"
  shows "n \<le> w \<Longrightarrow> rectangular g h w \<Longrightarrow> sweep_inv d g0 w r 0 g \<Longrightarrow>
     \<exists>g' rs'. sweep_cols r d [0..<n] (g, rs) = Done (g', rs') \<and> rectangular g' h w
           \<and> sweep_inv d g0 w r n g'"
proof (induction n)
  case 0
  then show ?case by simp
next
  case (Suc n)
  then obtain g1 rs1 where 1: "sweep_cols r d [0..<n] (g, rs) = Done (g1, rs1)"
    "rectangular g1 h w" "sweep_inv d g0 w r n g1" by force
  have n: "n < w" using Suc.prems by simp
  obtain g2 rs2 where 2: "sweep_cell r d n (g1, rs1) = Done (g2, rs2)"
    "rectangular g2 h w" "sweep_inv d g0 w r (Suc n) g2"
    using sweep_cell_inv[OF 1(2) r0 r n d 1(3)] by blast
  show ?case using 1(1) 2 by (simp add: sweep_cols_append)
qed

lemma sweep_rows_inv:
  assumes r0: "length g0 = h" and d: "d \<noteq> []"
  shows "n \<le> h \<Longrightarrow> rectangular g h w \<Longrightarrow> sweep_inv d g0 w 0 0 g \<Longrightarrow>
     \<exists>g' rs'. sweep_rows [0..<n] w d (g, rs) = Done (g', rs') \<and> rectangular g' h w
           \<and> sweep_inv d g0 w n 0 g'"
proof (induction n)
  case 0
  then show ?case by simp
next
  case (Suc n)
  then obtain g1 rs1 where 1: "sweep_rows [0..<n] w d (g, rs) = Done (g1, rs1)"
    "rectangular g1 h w" "sweep_inv d g0 w n 0 g1" by force
  have n: "n < h" using Suc.prems by simp
  obtain g2 rs2 where 2: "sweep_cols n d [0..<w] (g1, rs1) = Done (g2, rs2)"
    "rectangular g2 h w" "sweep_inv d g0 w n w g2"
    using sweep_cols_inv[OF r0 n d order_refl 1(2) 1(3)] by blast
  have "sweep_inv d g0 w (Suc n) 0 g2" using 2(3) by (simp add: sweep_inv_def)
  then show ?case using 1(1) 2(1,2) by (simp add: sweep_rows_append)
qed

lemma in_bounds_rect:
  "rectangular g h w \<Longrightarrow>
   in_bounds g p \<longleftrightarrow> 0 \<le> fst p \<and> fst p < int h \<and> 0 \<le> snd p \<and> snd p < int w"
  by (auto simp: in_bounds_def rectangular_nth nat_less_iff)

lemma mark_coords_cells:
  assumes "rectangular g h w" "\<forall>p \<in> set ps. in_bounds g p"
  shows "\<exists>g'. mark_coords g ps = Done g' \<and> rectangular g' h w
          \<and> (\<forall>r < h. \<forall>c < w. g' ! r ! c = (if (int r, int c) \<in> set ps then cleared else g ! r ! c))"
  using assms
proof (induction ps arbitrary: g)
  case Nil
  then show ?case by simp
next
  case (Cons p ps)
  let ?g1 = "g[nat (fst p) := (g ! nat (fst p))[nat (snd p) := cleared]]"
  have p: "in_bounds g p" using Cons.prems by simp
  have pb: "0 \<le> fst p" "nat (fst p) < h" "0 \<le> snd p" "nat (snd p) < w"
    using p in_bounds_rect[OF Cons.prems(1), of p] by (auto simp: nat_less_iff)
  have r1: "rectangular ?g1 h w" by (rule rectangular_update[OF Cons.prems(1)])
  have b1: "\<forall>q \<in> set ps. in_bounds ?g1 q"
    using Cons.prems(2) by (simp add: in_bounds_rect[OF Cons.prems(1)] in_bounds_rect[OF r1])
  obtain g' where g': "mark_coords ?g1 ps = Done g'" "rectangular g' h w"
    "\<forall>r < h. \<forall>c < w. g' ! r ! c = (if (int r, int c) \<in> set ps then cleared else ?g1 ! r ! c)"
    using Cons.IH[OF r1 b1] by blast
  have lens: "length g = h" "\<And>r. r < h \<Longrightarrow> length (g ! r) = w"
    using Cons.prems(1) by (auto simp: rectangular_nth)
  have cell1: "?g1 ! r ! c = (if (int r, int c) = p then cleared else g ! r ! c)"
    if "r < h" "c < w" for r c
    using that pb lens by (cases p) (auto simp: nth_list_update)
  have "mark_coords g (p # ps) = Done g'"
    using set_orb_in_bounds[OF p, of cleared] g'(1) by simp
  moreover have "\<forall>r < h. \<forall>c < w.
      g' ! r ! c = (if (int r, int c) \<in> set (p # ps) then cleared else g ! r ! c)"
    using g'(3) cell1 by auto
  ultimately show ?case using g'(2) by blast
qed

lemma log_and_mark_cells:
  assumes "rectangular g h w" "\<forall>m \<in> set ms. m \<noteq> [] \<and> (\<forall>p \<in> set m. in_bounds g p)"
  shows "\<exists>evs g'. log_and_mark g ms = Done (evs, g') \<and> rectangular g' h w
          \<and> (\<forall>r < h. \<forall>c < w.
                g' ! r ! c = (if (int r, int c) \<in> set (concat ms) then cleared else g ! r ! c))"
  using assms
proof (induction ms arbitrary: g)
  case Nil
  then show ?case by simp
next
  case (Cons m ms)
  obtain p0 rest where m: "m = p0 # rest" using Cons.prems(2) by (cases m) auto
  have mb: "\<forall>p \<in> set m. in_bounds g p" using Cons.prems(2) by simp
  obtain g1 where g1: "mark_coords g m = Done g1" "rectangular g1 h w"
    "\<forall>r < h. \<forall>c < w. g1 ! r ! c = (if (int r, int c) \<in> set m then cleared else g ! r ! c)"
    using mark_coords_cells[OF Cons.prems(1) mb] by blast
  have b1: "\<forall>m' \<in> set ms. m' \<noteq> [] \<and> (\<forall>p \<in> set m'. in_bounds g1 p)"
    using Cons.prems(2) by (simp add: in_bounds_rect[OF Cons.prems(1)] in_bounds_rect[OF g1(2)])
  obtain evs g' where g': "log_and_mark g1 ms = Done (evs, g')" "rectangular g' h w"
    "\<forall>r < h. \<forall>c < w.
        g' ! r ! c = (if (int r, int c) \<in> set (concat ms) then cleared else g1 ! r ! c)"
    using Cons.IH[OF g1(2) b1] by blast
  have p0: "in_bounds g p0" using mb m by simp
  have "log_and_mark g (m # ms) = Done ((g ! nat (fst p0) ! nat (snd p0), length m) # evs, g')"
    using get_orb_in_bounds[OF p0] g1(1) g'(1) by (simp add: m)
  moreover have "\<forall>r < h. \<forall>c < w.
      g' ! r ! c = (if (int r, int c) \<in> set (concat (m # ms)) then cleared else g ! r ! c)"
    using g'(3) g1(3) by auto
  ultimately show ?case using g'(2) by blast
qed

lemma column_marked:
  assumes "rectangular g h w" "rectangular g' h w" "c < w"
    and "\<forall>r < h. \<forall>c < w.
          g' ! r ! c = (if (int r, int c) \<in> set (concat ms) then cleared else g ! r ! c)"
  shows "column g' c = column (marked g ms) c"
proof (rule nth_equalityI)
  show "length (column g' c) = length (column (marked g ms) c)"
    using assms(1,2) by (simp add: marked_def rectangular_nth)
next
  fix r assume "r < length (column g' c)"
  then have r: "r < h" using assms(2) by (simp add: rectangular_nth)
  have lens: "length g = h" "length (g ! r) = w" "length g' = h"
    using assms(1,2) r by (auto simp: rectangular_nth)
  show "column g' c ! r = column (marked g ms) c ! r"
    using r assms(3,4) lens by (simp add: column_nth marked_def)
qed

lemma rect_concat_cells:
  assumes "rectangular g h w" "x \<in> set (concat g)"
  shows "\<exists>r < h. \<exists>c < w. x = column g c ! r"
proof -
  obtain row where row: "row \<in> set g" "x \<in> set row" using assms(2) by auto
  obtain r where r: "r < length g" "row = g ! r" using row(1) by (auto simp: in_set_conv_nth)
  obtain c where c: "c < length row" "x = row ! c" using row(2) by (auto simp: in_set_conv_nth)
  have "r < h" "c < w" using assms(1) r c by (auto simp: rectangular_nth)
  moreover have "x = column g c ! r" using r c by (simp add: column_nth)
  ultimately show ?thesis by blast
qed

text \<open>
  Where the grid has \<open>height\<close> rows of \<open>width\<close> cells, as on a square board, the sweep
  does drain: for every list of non-empty groups of in-bounds coordinates and every
  non-empty refill list without the cleared marker, \<open>evaluate\<close> returns, the grid keeps
  its shape, no cell holds the marker afterwards, and every column is, from the top, as
  many refill tokens as the column had cleared cells, followed by the column's other
  tokens in their original order.
\<close>

lemma evaluate_drains_cleared_well_formed:
  assumes wf: "well_formed b"
    and groups: "\<forall>m \<in> set ms. m \<noteq> [] \<and> (\<forall>p \<in> set m. in_bounds (orbs b) p)"
    and d: "d \<noteq> []" and dc: "cleared \<notin> set d"
  shows "\<exists>evs g' rs'. evaluate b (Some ms) (Some d) rs = Done (evs, b\<lparr>orbs := g'\<rparr>, rs')
     \<and> rectangular g' (height b) (width b)
     \<and> cleared \<notin> set (concat g')
     \<and> (\<forall>c < width b. \<exists>news. set news \<subseteq> set d
            \<and> length news = count_list (column (marked (orbs b) ms) c) cleared
            \<and> column g' c = news @ filter (\<lambda>t. t \<noteq> cleared) (column (marked (orbs b) ms) c))"
proof -
  let ?h = "height b" and ?w = "width b"
  have rg: "rectangular (orbs b) ?h ?w" using wf by (simp add: well_formed_def)
  obtain evs g1 where g1: "log_and_mark (orbs b) ms = Done (evs, g1)" "rectangular g1 ?h ?w"
    "\<forall>r < ?h. \<forall>c < ?w.
        g1 ! r ! c = (if (int r, int c) \<in> set (concat ms) then cleared else orbs b ! r ! c)"
    using log_and_mark_cells[OF rg groups] by blast
  have l1: "length g1 = ?h" using g1(2) by (simp add: rectangular_nth)
  have inv0: "sweep_inv d g1 ?w 0 0 g1" by (simp add: sweep_inv_def drained_0)
  obtain g' rs' where g': "sweep_rows [0..<?h] ?w d (g1, rs) = Done (g', rs')"
    "rectangular g' ?h ?w" "sweep_inv d g1 ?w ?h 0 g'"
    using sweep_rows_inv[OF l1 d order_refl g1(2) inv0] by blast
  have ev: "evaluate b (Some ms) (Some d) rs = Done (evs, b\<lparr>orbs := g'\<rparr>, rs')"
    by (simp add: evaluate_def Let_def g1(1) g'(1))
  have fin: "cleared \<notin> set (column g' c)
       \<and> (\<exists>news. set news \<subseteq> set d \<and> length news = count_list (column g1 c) cleared
              \<and> column g' c = news @ filter (\<lambda>t. t \<noteq> cleared) (column g1 c))"
    if c: "c < ?w" for c
  proof -
    have "drained d (column g1 c) (length (column g1 c)) (column g' c)"
      using g'(3) c by (simp add: sweep_inv_def l1)
    then show ?thesis by (rule drained_final[OF _ dc])
  qed
  have clean: "cleared \<notin> set (concat g')"
  proof
    assume "cleared \<in> set (concat g')"
    then obtain r c where rc: "r < ?h" "c < ?w" "cleared = column g' c ! r"
      using rect_concat_cells[OF g'(2)] by blast
    have "r < length (column g' c)" using rc(1) g'(2) by (simp add: rectangular_nth)
    then have "cleared \<in> set (column g' c)" using rc(3) by (metis nth_mem)
    then show False using fin[OF rc(2)] by simp
  qed
  have cols: "\<forall>c < ?w. \<exists>news. set news \<subseteq> set d
            \<and> length news = count_list (column (marked (orbs b) ms) c) cleared
            \<and> column g' c = news @ filter (\<lambda>t. t \<noteq> cleared) (column (marked (orbs b) ms) c)"
  proof (intro allI impI)
    fix c assume c: "c < ?w"
    have "column g1 c = column (marked (orbs b) ms) c"
      by (rule column_marked[OF rg g1(2) c g1(3)])
    then show "\<exists>news. set news \<subseteq> set d
            \<and> length news = count_list (column (marked (orbs b) ms) c) cleared
            \<and> column g' c = news @ filter (\<lambda>t. t \<noteq> cleared) (column (marked (orbs b) ms) c)"
      using fin[OF c] by simp
  qed
  show ?thesis using ev g'(2) clean cols by blast
qed

text \<open>
  C8. The board \<open>new Board(2, 4, [0, 1])\<close> builds from the draws below stores its grid as
  two rows of four cells and has no match. \<open>evaluate\<close> on it, without a match list or
  with the empty list, walks the rows below \<open>height = 4\<close>, reads \<open>orbs[2][0]\<close> in a row
  that does not exist, and throws a \<open>TypeError\<close> where the claim promises a no-op.
\<close>

theorem evaluate_throws_on_constructed_board:
  "Board_new 0 2 4 [Num 0, Num 1] [0, 1, 0, 1, 1, 0, 0, 1]
     = Done (\<lparr>width = 2, height = 4, types = [Num 0, Num 1],
               orbs = [[Num 0, Num 0, Num 1, Num 0], [Num 1, Num 1, Num 0, Num 1]]\<rparr>, [])
   \<and> hasMatch [[Num 0, Num 0, Num 1, Num 0], [Num 1, Num 1, Num 0, Num 1]] = Done False
   \<and> evaluate \<lparr>width = 2, height = 4, types = [Num 0, Num 1],
               orbs = [[Num 0, Num 0, Num 1, Num 0], [Num 1, Num 1, Num 0, Num 1]]\<rparr>
        None None [] = Raise TypeError
   \<and> evaluate \<lparr>width = 2, height = 4, types = [Num 0, Num 1],
               orbs = [[Num 0, Num 0, Num 1, Num 0], [Num 1, Num 1, Num 0, Num 1]]\<rparr>
        (Some []) None [] = Raise TypeError"
proof -
  let ?g = "[[Num 0, Num 0, Num 1, Num 0], [Num 1, Num 1, Num 0, Num 1]]"
  let ?b = "\<lparr>width = 2, height = 4, types = [Num 0, Num 1], orbs = ?g\<rparr>"
  have 1: "Board_new 0 2 4 [Num 0, Num 1] [0, 1, 0, 1, 1, 0, 0, 1] = Done (?b, [])"
    by code_simp
  have 2: "hasMatch ?g = Done False" by code_simp
  have 3: "evaluate ?b None None [] = Raise TypeError"
    by (simp add: evaluate_def sweep_cell_def get_orb_def js_row_def js_nth_def cleared_def
        upt_rec bind_run_def)
  have 4: "evaluate ?b (Some []) None [] = Raise TypeError"
    by (simp add: evaluate_def sweep_cell_def get_orb_def js_row_def js_nth_def cleared_def
        upt_rec bind_run_def)
  show ?thesis using 1 2 3 4 by blast
qed

text \<open>
  C2. The board \<open>new Board(5, 4, [0, 1, 2])\<close> builds from the draws below stores its grid
  as five rows of four cells. A player's swap of \<open>(4, 2)\<close> with \<open>(3, 2)\<close> is committed and
  makes the run \<open>(4, 0), (4, 1), (4, 2)\<close>, the only group of the structural enumeration
  and of the merger, in bounds. \<open>evaluate\<close> with that group marks its three cells and
  sweeps the rows below \<open>height = 4\<close> only: it returns with the marker still in row 4.
\<close>

theorem evaluate_leaves_marker_on_constructed_board:
  "Board_new 0 5 4 [Num 0, Num 1, Num 2]
       [0, 1, 2, 0, 1, 1, 2, 0, 2, 1, 2, 0, 1, 1, 0, 0, 1, 2, 0, 2]
     = Done (\<lparr>width = 5, height = 4, types = [Num 0, Num 1, Num 2],
               orbs = [[Num 0, Num 1, Num 2, Num 0], [Num 1, Num 2, Num 0, Num 1],
                       [Num 2, Num 0, Num 1, Num 2], [Num 0, Num 2, Num 1, Num 0],
                       [Num 1, Num 1, Num 0, Num 2]]\<rparr>, [])
   \<and> swap [[Num 0, Num 1, Num 2, Num 0], [Num 1, Num 2, Num 0, Num 1],
            [Num 2, Num 0, Num 1, Num 2], [Num 0, Num 2, Num 1, Num 0],
            [Num 1, Num 1, Num 0, Num 2]] ((4, 2), (3, 2)) True
     = Done [[Num 0, Num 1, Num 2, Num 0], [Num 1, Num 2, Num 0, Num 1],
             [Num 2, Num 0, Num 1, Num 2], [Num 0, Num 2, Num 0, Num 0],
             [Num 1, Num 1, Num 1, Num 2]]
   \<and> findMatches [[Num 0, Num 1, Num 2, Num 0], [Num 1, Num 2, Num 0, Num 1],
             [Num 2, Num 0, Num 1, Num 2], [Num 0, Num 2, Num 0, Num 0],
             [Num 1, Num 1, Num 1, Num 2]] = Done [[(4, 0), (4, 1), (4, 2)]]
   \<and> combineMatches [[(4, 0), (4, 1), (4, 2)]] = [[(4, 0), (4, 1), (4, 2)]]
   \<and> in_bounds [[Num 0, Num 1, Num 2, Num 0], [Num 1, Num 2, Num 0, Num 1],
             [Num 2, Num 0, Num 1, Num 2], [Num 0, Num 2, Num 0, Num 0],
             [Num 1, Num 1, Num 1, Num 2]] (4, 0)
   \<and> in_bounds [[Num 0, Num 1, Num 2, Num 0], [Num 1, Num 2, Num 0, Num 1],
             [Num 2, Num 0, Num 1, Num 2], [Num 0, Num 2, Num 0, Num 0],
             [Num 1, Num 1, Num 1, Num 2]] (4, 1)
   \<and> in_bounds [[Num 0, Num 1, Num 2, Num 0], [Num 1, Num 2, Num 0, Num 1],
             [Num 2, Num 0, Num 1, Num 2], [Num 0, Num 2, Num 0, Num 0],
             [Num 1, Num 1, Num 1, Num 2]] (4, 2)
   \<and> evaluate \<lparr>width = 5, height = 4, types = [Num 0, Num 1, Num 2],
               orbs = [[Num 0, Num 1, Num 2, Num 0], [Num 1, Num 2, Num 0, Num 1],
                       [Num 2, Num 0, Num 1, Num 2], [Num 0, Num 2, Num 0, Num 0],
                       [Num 1, Num 1, Num 1, Num 2]]\<rparr>
        (Some [[(4, 0), (4, 1), (4, 2)]]) None [1, 2]
     = Done ([(Num 1, 3)],
             \<lparr>width = 5, height = 4, types = [Num 0, Num 1, Num 2],
               orbs = [[Num 0, Num 1, Num 2, Num 0], [Num 1, Num 2, Num 0, Num 1],
                       [Num 2, Num 0, Num 1, Num 2], [Num 0, Num 2, Num 0, Num 0],
                       [cleared, cleared, cleared, Num 2]]\<rparr>, [1, 2])"
proof -
  let ?g = "[[Num 0, Num 1, Num 2, Num 0], [Num 1, Num 2, Num 0, Num 1],
            [Num 2, Num 0, Num 1, Num 2], [Num 0, Num 2, Num 1, Num 0],
            [Num 1, Num 1, Num 0, Num 2]]"
  let ?g2 = "[[Num 0, Num 1, Num 2, Num 0], [Num 1, Num 2, Num 0, Num 1],
             [Num 2, Num 0, Num 1, Num 2], [Num 0, Num 2, Num 0, Num 0],
             [Num 1, Num 1, Num 1, Num 2]]"
  let ?m = "[(4, 0), (4, 1), (4, 2)] :: coord list"
  have 1: "Board_new 0 5 4 [Num 0, Num 1, Num 2]
       [0, 1, 2, 0, 1, 1, 2, 0, 2, 1, 2, 0, 1, 1, 0, 0, 1, 2, 0, 2]
     = Done (\<lparr>width = 5, height = 4, types = [Num 0, Num 1, Num 2], orbs = ?g\<rparr>, [])"
    by code_simp
  have 2: "swap ?g ((4, 2), (3, 2)) True = Done ?g2" by code_simp
  have 3: "findMatches ?g2 = Done [?m]" by code_simp
  have 4: "combineMatches [?m] = [?m]" by code_simp
  have 5: "in_bounds ?g2 (4, 0)" "in_bounds ?g2 (4, 1)" "in_bounds ?g2 (4, 2)"
    by (simp_all add: in_bounds_def)
  have 6: "evaluate \<lparr>width = 5, height = 4, types = [Num 0, Num 1, Num 2], orbs = ?g2\<rparr>
        (Some [?m]) None [1, 2]
     = Done ([(Num 1, 3)],
             \<lparr>width = 5, height = 4, types = [Num 0, Num 1, Num 2],
               orbs = [[Num 0, Num 1, Num 2, Num 0], [Num 1, Num 2, Num 0, Num 1],
                       [Num 2, Num 0, Num 1, Num 2], [Num 0, Num 2, Num 0, Num 0],
                       [cleared, cleared, cleared, Num 2]]\<rparr>, [1, 2])"
    by (simp add: evaluate_def sweep_cell_def get_orb_def set_orb_def js_row_def js_nth_def
        js_update_def cleared_def upt_rec bind_run_def)
  show ?thesis using 1 2 3 4 5 6 by blast
qed

section \<open>Properties of construction, shuffle and repair\<close>

lemma bind_run_eq_Done: "bind_run m f = Done y \<longleftrightarrow> (\<exists>x. m = Done x \<and> f x = Done y)"
  by (cases m) (simp_all add: bind_run_def)

lemma unmatch_leaves_no_match:
  "unmatch fuel b rs = Done (b', rs') \<Longrightarrow> findMatches (orbs b') = Done []"
proof (induction fuel arbitrary: b rs)
  case 0
  then show ?case by simp
next
  case (Suc fuel)
  from Suc.prems obtain found where f: "findMatches (orbs b) = Done found"
    and rest: "(if found \<noteq> [] then
         bind_run (findMatches (orbs b)) (\<lambda>triples.
           case combineMatches triples of
             [] \<Rightarrow> Raise TypeError
           | match # _ \<Rightarrow>
               bind_run (unmatch_step fuel b match rs) (\<lambda>st. unmatch fuel (fst st) (snd st)))
       else Done (b, rs)) = Done (b', rs')"
    by (auto simp: bind_run_eq_Done)
  show ?case
  proof (cases "found = []")
    case True
    then show ?thesis using f rest by simp
  next
    case False
    then obtain match more st where "combineMatches found = match # more"
      "unmatch_step fuel b match rs = Done st" "unmatch fuel (fst st) (snd st) = Done (b', rs')"
      using rest f by (auto simp: bind_run_eq_Done split: list.splits)
    then show ?thesis using Suc.IH by blast
  qed
qed

lemma shuffle_post:
  "shuffle fuel b rs = Done (b', rs') \<Longrightarrow>
   hasMatch (orbs b') = Done False \<and> hasPotentialMatch (orbs b') = Done True"
proof (induction fuel arbitrary: b rs)
  case 0
  then show ?case by simp
next
  case (Suc fuel)
  let ?mixed = "shuffle_rows (orbs b) rs"
  from Suc.prems obtain st again where
    u: "unmatch fuel (b\<lparr>orbs := fst ?mixed\<rparr>) (snd ?mixed) = Done st"
    and n: "needsShuffle (orbs (fst st)) = Done again"
    and r: "(if again then shuffle fuel (fst st) (snd st) else Done st) = Done (b', rs')"
    by (auto simp: bind_run_eq_Done Let_def)
  show ?case
  proof (cases again)
    case True
    then show ?thesis using r Suc.IH by simp
  next
    case False
    then have st: "st = (b', rs')" using r by simp
    have "findMatches (orbs b') = Done []"
      using unmatch_leaves_no_match[of fuel _ _ b' rs'] u st by simp
    moreover have "hasPotentialMatch (orbs b') = Done True"
      using n False st by (auto simp: needsShuffle_def split: run.splits)
    ultimately show ?thesis by (simp add: hasMatch_def)
  qed
qed

lemma Board_new_post:
  assumes "Board_new fuel w h tys rs = Done (b', rs')"
  shows "hasMatch (orbs b') = Done False \<and> hasPotentialMatch (orbs b') = Done True"
proof -
  let ?s = "sample_rows h w tys rs"
  let ?b = "\<lparr>width = w, height = h, types = tys, orbs = lodash_zip (fst ?s)\<rparr>"
  from assms obtain m go where m: "hasMatch (orbs ?b) = Done m"
    and go: "(if m then Done True else needsShuffle (orbs ?b)) = Done go"
    and r: "(if go then shuffle fuel ?b (snd ?s) else Done (?b, snd ?s)) = Done (b', rs')"
    by (auto simp: Board_new_def bind_run_eq_Done Let_def)
  show ?thesis
  proof (cases go)
    case True
    then show ?thesis using r shuffle_post by simp
  next
    case False
    then have b: "b' = ?b" using r by simp
    have nm: "m = False" using go False by (cases m) auto
    then have "needsShuffle (orbs ?b) = Done False" using go False by simp
    then have "hasPotentialMatch (orbs ?b) = Done True"
      by (auto simp: needsShuffle_def split: run.splits)
    then show ?thesis using m nm b by simp
  qed
qed

text \<open>
  C1. Whenever the constructor returns a board, and whenever \<open>shuffle\<close> returns one, the
  returned board has no match and has a potential match, so \<open>needsShuffle\<close> is false on it.
  This holds for every width, height, type list, random source and step budget.
\<close>

theorem construction_and_shuffle_invariant:
  "(Board_new fuel w h tys rs = Done (b', rs') \<longrightarrow>
      hasMatch (orbs b') = Done False \<and> hasPotentialMatch (orbs b') = Done True
      \<and> needsShuffle (orbs b') = Done False)
   \<and> (shuffle fuel b rs = Done (b', rs') \<longrightarrow>
      hasMatch (orbs b') = Done False \<and> hasPotentialMatch (orbs b') = Done True
      \<and> needsShuffle (orbs b') = Done False)"
  using Board_new_post[of fuel w h tys rs b' rs'] shuffle_post[of fuel b rs b' rs']
  by (auto simp: needsShuffle_def)

theorem construction_and_shuffle_invariant_witness:
  "Board_new 6 4 4 [Num 0, Num 1, Num 2]
     [2, 1, 1, 0, 0, 2, 1, 0, 0, 0, 1, 2, 2, 1, 1, 1, 5, 6, 1, 1, 5, 9, 7, 1, 4, 3, 9, 8, 11, 7, 10, 5]
   = Done (\<lparr>width = 4, height = 4, types = [Num 0, Num 1, Num 2],
            orbs = [[Num 1, Num 2, Num 2, Num 0], [Num 2, Num 1, Num 1, Num 0],
                    [Num 1, Num 1, Num 0, Num 1], [Num 1, Num 2, Num 0, Num 0]]\<rparr>, [])
   \<and> hasMatch [[Num 1, Num 2, Num 2, Num 0], [Num 2, Num 1, Num 1, Num 0],
                [Num 1, Num 1, Num 0, Num 1], [Num 1, Num 2, Num 0, Num 0]] = Done False
   \<and> needsShuffle [[Num 1, Num 2, Num 2, Num 0], [Num 2, Num 1, Num 1, Num 0],
                [Num 1, Num 1, Num 0, Num 1], [Num 1, Num 2, Num 0, Num 0]] = Done False
   \<and> shuffle 4 \<lparr>width = 4, height = 2, types = [Num 0, Num 1],
                 orbs = [[Num 0, Num 0, Num 1, Num 0], [Num 1, Num 1, Num 0, Num 1]]\<rparr>
         [2, 0, 1, 0, 2, 0, 0, 0, 1, 2, 3, 0, 1, 2, 3, 3, 1, 1, 0]
     = Done (\<lparr>width = 4, height = 2, types = [Num 0, Num 1],
              orbs = [[Num 1, Num 0, Num 1, Num 0], [Num 0, Num 1, Num 0, Num 1]]\<rparr>, [3, 3, 1, 1, 0])
   \<and> hasMatch [[Num 1, Num 0, Num 1, Num 0], [Num 0, Num 1, Num 0, Num 1]] = Done False
   \<and> hasPotentialMatch [[Num 1, Num 0, Num 1, Num 0], [Num 0, Num 1, Num 0, Num 1]] = Done True"
proof -
  let ?rs1 = "[2, 1, 1, 0, 0, 2, 1, 0, 0, 0, 1, 2, 2, 1, 1, 1, 5, 6, 1, 1, 5, 9, 7, 1, 4, 3, 9, 8, 11, 7, 10, 5]"
  let ?b1 = "\<lparr>width = 4, height = 4, types = [Num 0, Num 1, Num 2],
            orbs = [[Num 1, Num 2, Num 2, Num 0], [Num 2, Num 1, Num 1, Num 0],
                    [Num 1, Num 1, Num 0, Num 1], [Num 1, Num 2, Num 0, Num 0]]\<rparr>"
  let ?b2 = "\<lparr>width = 4, height = 2, types = [Num 0, Num 1],
                 orbs = [[Num 0, Num 0, Num 1, Num 0], [Num 1, Num 1, Num 0, Num 1]]\<rparr>"
  let ?rs2 = "[2, 0, 1, 0, 2, 0, 0, 0, 1, 2, 3, 0, 1, 2, 3, 3, 1, 1, 0]"
  let ?b3 = "\<lparr>width = 4, height = 2, types = [Num 0, Num 1],
              orbs = [[Num 1, Num 0, Num 1, Num 0], [Num 0, Num 1, Num 0, Num 1]]\<rparr>"
  have 1: "Board_new 6 4 4 [Num 0, Num 1, Num 2] ?rs1 = Done (?b1, [])" by code_simp
  have 2: "shuffle 4 ?b2 ?rs2 = Done (?b3, [3, 3, 1, 1, 0])" by code_simp
  have a: "hasMatch (orbs ?b1) = Done False \<and> hasPotentialMatch (orbs ?b1) = Done True
           \<and> needsShuffle (orbs ?b1) = Done False"
    using construction_and_shuffle_invariant[of 6 4 4 "[Num 0, Num 1, Num 2]" ?rs1 ?b1 "[]"] 1
    by blast
  have b: "hasMatch (orbs ?b3) = Done False \<and> hasPotentialMatch (orbs ?b3) = Done True
           \<and> needsShuffle (orbs ?b3) = Done False"
    using construction_and_shuffle_invariant[of 4 _ _ _ ?rs2 ?b3 "[3, 3, 1, 1, 0]" ?b2] 2
    by blast
  show ?thesis using 1 2 a b by simp
qed

lemma findMatches_groups_straight:
  assumes rect: "rectangular g h w" and h: "2 \<le> h" and w: "2 \<le> w"
    and fm: "findMatches g = Done ms"
  shows "\<forall>m \<in> set ms. straight_triple g m"
proof -
  have h0: "0 < h" using h by simp
  let ?H = "findMatches_priv (windows g False h w) False"
  let ?V = "findMatches_priv (windows (lodash_zip g) True w h) True"
  have ms: "ms = ?H @ ?V" using fm findMatches_rect[OF rect h w] by simp
  have len: "length g = h" "\<And>r. r < h \<Longrightarrow> length (g ! r) = w"
    using rect by (auto simp: rectangular_def)
  have "\<forall>m \<in> set ?H. straight_triple g m"
    unfolding set_findMatches_priv_rows[OF rect]
    by (auto simp: straight_triple_def in_bounds_def cell_def len nat_int_add)
  moreover have "\<forall>m \<in> set ?V. straight_triple g m"
    unfolding set_findMatches_priv_cols[OF rect h0]
    by (auto simp: straight_triple_def in_bounds_def cell_def len nat_int_add)
  ultimately show ?thesis by (simp add: ms ball_Un)
qed

lemma straight_triple_uniform: "straight_triple g m \<Longrightarrow> uniform g m"
proof -
  assume st: "straight_triple g m"
  then obtain p1 p2 p3 where m: "m = [p1, p2, p3]"
    by (auto simp: straight_triple_def split: list.splits)
  have b: "in_bounds g p1" "in_bounds g p2" "in_bounds g p3"
    and e: "cell g p1 = cell g p2" "cell g p2 = cell g p3"
    using st by (auto simp: straight_triple_def m)
  have "holds_token g (cell g p1) m"
    using get_orb_in_bounds[OF b(1)] get_orb_in_bounds[OF b(2)] get_orb_in_bounds[OF b(3)] e
    by (simp add: holds_token_def m cell_def)
  then show ?thesis by (auto simp: uniform_def m)
qed

lemma set_sorted_set [simp]: "set (sorted_set xs) = set xs"
  by (simp add: sorted_set_def)

lemma uniform_sorted_set: "uniform g m \<Longrightarrow> uniform g (sorted_set m)"
  by (cases m) (auto simp: uniform_def holds_token_def sorted_set_def dest: arg_cong[of _ _ set])

lemma uniform_union:
  assumes "uniform g cur" "uniform g m" "filter (\<lambda>x. x \<in> set m) cur \<noteq> []"
  shows "uniform g (sorted_set (cur @ m))"
proof -
  obtain t where t: "holds_token g t cur" using assms(1) by (auto simp: uniform_def)
  obtain u where u: "holds_token g u m" using assms(2) by (auto simp: uniform_def)
  obtain q where q: "q \<in> set cur" "q \<in> set m"
    using assms(3) by (auto simp: filter_empty_conv)
  have "t = u" using t u q by (auto simp: holds_token_def)
  then have "holds_token g t (sorted_set (cur @ m))"
    using t u by (auto simp: holds_token_def)
  moreover have "sorted_set (cur @ m) \<noteq> []"
    using q(1) set_sorted_set[of "cur @ m"] by (metis Un_iff empty_iff empty_set set_append)
  ultimately show ?thesis by (auto simp: uniform_def)
qed

lemma merge_fold_uniform:
  assumes "\<forall>m \<in> set xs. uniform g m"
  shows "uniform g cur \<Longrightarrow> \<forall>m \<in> set unused. uniform g m \<Longrightarrow>
     uniform g (fst (fold merge_step xs (cur, unused)))
     \<and> (\<forall>m \<in> set (snd (fold merge_step xs (cur, unused))). uniform g m)"
  using assms
proof (induction xs arbitrary: cur unused)
  case Nil
  then show ?case by simp
next
  case (Cons x xs)
  show ?case
  proof (cases "filter (\<lambda>y. y \<in> set x) cur \<noteq> []")
    case True
    have u: "uniform g (sorted_set (cur @ x))"
      using uniform_union[OF Cons.prems(1) _ True] Cons.prems(3) by simp
    have r: "\<forall>m \<in> set (remove1 x unused). uniform g m"
      using Cons.prems(2) by (meson notin_set_remove1)
    show ?thesis using Cons.IH[OF u r] Cons.prems(3) True by (simp add: merge_step_def)
  next
    case False
    show ?thesis using Cons.IH[OF Cons.prems(1,2)] Cons.prems(3) False
      by (simp add: merge_step_def)
  qed
qed

lemma combineMatches_uniform:
  "\<forall>m \<in> set ms. uniform g m \<Longrightarrow> \<forall>m \<in> set (combineMatches ms). uniform g m"
proof (induction ms rule: combineMatches.induct)
  case 1
  then show ?case by simp
next
  case (2 m unused)
  let ?st = "fold merge_step unused (sorted_set m, unused)"
  have um: "uniform g (sorted_set m)" using 2(2) by (simp add: uniform_sorted_set)
  have uu: "\<forall>x \<in> set unused. uniform g x" using 2(2) by simp
  have f: "uniform g (fst ?st) \<and> (\<forall>x \<in> set (snd ?st). uniform g x)"
    by (rule merge_fold_uniform[OF uu um uu])
  then have "\<forall>x \<in> set (combineMatches (snd ?st)). uniform g x"
    using 2(1)[OF refl] by simp
  then show ?case using f by (simp add: Let_def)
qed

lemma random_fallback_token:
  "random_fallback fuel b thisOrb match rs = Done (p, rs') \<Longrightarrow>
   \<exists>t. get_orb (orbs b) (fst p) (snd p) = Done t \<and> t \<noteq> thisOrb"
proof (induction fuel arbitrary: rs)
  case 0
  then show ?case by simp
next
  case (Suc fuel)
  let ?rr = "lodash_random (int (height b) - 1) rs"
  let ?rc = "lodash_random (int (width b) - 1) (snd ?rr)"
  let ?p = "(fst ?rr, fst ?rc)"
  from Suc.prems obtain t where t: "get_orb (orbs b) (fst ?rr) (fst ?rc) = Done t"
    and r: "(if t \<noteq> thisOrb then Done (?p, snd ?rc)
             else random_fallback fuel b thisOrb match (snd ?rc)) = Done (p, rs')"
    by (auto simp: Let_def includes_new_array_def bind_run_eq_Done)
  show ?case
  proof (cases "t = thisOrb")
    case True
    then show ?thesis using r Suc.IH by simp
  next
    case False
    then have "p = ?p" using r by simp
    then show ?thesis using t False by simp
  qed
qed

text \<open>
  While the grid is rectangular with at least two rows and two columns, every cell of the
  first merged group holds the token of the targeted orb, and then the token test alone
  keeps the random fallback away from the group: the coordinate it chooses is not a
  member of \<open>match\<close> and holds a token different from \<open>thisOrb\<close>.
\<close>

lemma random_fallback_choice_rectangular:
  assumes rect: "rectangular (orbs b) h w" and h: "2 \<le> h" and w: "2 \<le> w"
    and fm: "findMatches (orbs b) = Done triples"
    and grp: "combineMatches triples = match # others"
    and tgt: "target \<in> set match"
    and orb: "get_orb (orbs b) (fst target) (snd target) = Done thisOrb"
    and run: "random_fallback fuel b thisOrb match rs = Done (p, rs')"
  shows "p \<notin> set match \<and> (\<exists>t. get_orb (orbs b) (fst p) (snd p) = Done t \<and> t \<noteq> thisOrb)"
proof -
  have "\<forall>m \<in> set triples. uniform (orbs b) m"
    using findMatches_groups_straight[OF rect h w fm] straight_triple_uniform by blast
  then have "\<forall>m \<in> set (combineMatches triples). uniform (orbs b) m"
    by (rule combineMatches_uniform)
  then obtain u where u: "holds_token (orbs b) u match"
    using grp by (auto simp: uniform_def)
  have "u = thisOrb" using u tgt orb by (auto simp: holds_token_def)
  then have all: "\<forall>q \<in> set match. get_orb (orbs b) (fst q) (snd q) = Done thisOrb"
    using u by (simp add: holds_token_def)
  obtain t where t: "get_orb (orbs b) (fst p) (snd p) = Done t" "t \<noteq> thisOrb"
    using random_fallback_token[OF run] by blast
  have "p \<notin> set match" using all t by auto
  then show ?thesis using t by blast
qed

text \<open>
  C9. \<open>new Board(4, 3, [0, 1, 2])\<close> with the draws below. The grid, as sampled and
  shuffled, is stored as four rows of three cells, while the fallback draws a column below \<open>width = 4\<close>. The first two
  rounds of \<open>unmatch\<close> swap the medians of the runs in rows 0 and 3 with the cells
  \<open>(2, 3)\<close> and \<open>(0, 3)\<close> past the end of their rows, which lengthens rows 2 and 0. In
  the third round the window at \<open>(1, 1)\<close> is cut to the two equal cells of row 1, the
  group is \<open>(1, 1), (1, 2), (1, 3)\<close>, the targeted orb at \<open>(1, 2)\<close> holds \<open>0\<close>, and the
  fallback chooses \<open>(1, 3)\<close>: a member of the group, holding no token at all. The
  constructor then returns the board with the holes the swaps have left.
\<close>

theorem random_fallback_picks_group_member:
  "shuffle_rows
       (lodash_zip (fst (sample_rows 3 4 [Num 0, Num 1, Num 2]
          [1, 2, 0, 2, 1, 0, 2, 2, 1, 0, 0, 2,
           0, 0, 0, 0, 0, 0, 0, 0, 0, 0, 0, 0,
           0, 0, 0, 0, 2, 3, 0, 0, 0, 0, 0, 3, 0, 0, 0, 0, 1, 3])))
       (snd (sample_rows 3 4 [Num 0, Num 1, Num 2]
          [1, 2, 0, 2, 1, 0, 2, 2, 1, 0, 0, 2,
           0, 0, 0, 0, 0, 0, 0, 0, 0, 0, 0, 0,
           0, 0, 0, 0, 2, 3, 0, 0, 0, 0, 0, 3, 0, 0, 0, 0, 1, 3]))
     = ([[Num 1, Num 1, Num 1], [Num 2, Num 0, Num 0],
         [Num 0, Num 2, Num 0], [Num 2, Num 2, Num 2]],
        [0, 0, 0, 0, 2, 3, 0, 0, 0, 0, 0, 3, 0, 0, 0, 0, 1, 3])
   \<and> unmatch_step 4 \<lparr>width = 4, height = 3, types = [Num 0, Num 1, Num 2],
          orbs = [[Num 1, Num 1, Num 1], [Num 2, Num 0, Num 0],
                  [Num 0, Num 2, Num 0], [Num 2, Num 2, Num 2]]\<rparr>
       [(0, 0), (0, 1), (0, 2)] [0, 0, 0, 0, 2, 3, 0, 0, 0, 0, 0, 3, 0, 0, 0, 0, 1, 3]
     = Done (\<lparr>width = 4, height = 3, types = [Num 0, Num 1, Num 2],
          orbs = [[Num 1, Undefined, Num 1], [Num 2, Num 0, Num 0],
                  [Num 0, Num 2, Num 0, Num 1], [Num 2, Num 2, Num 2]]\<rparr>,
             [0, 0, 0, 0, 0, 3, 0, 0, 0, 0, 1, 3])
   \<and> unmatch_step 3 \<lparr>width = 4, height = 3, types = [Num 0, Num 1, Num 2],
          orbs = [[Num 1, Undefined, Num 1], [Num 2, Num 0, Num 0],
                  [Num 0, Num 2, Num 0, Num 1], [Num 2, Num 2, Num 2]]\<rparr>
       [(3, 0), (3, 1), (3, 2)] [0, 0, 0, 0, 0, 3, 0, 0, 0, 0, 1, 3]
     = Done (\<lparr>width = 4, height = 3, types = [Num 0, Num 1, Num 2],
          orbs = [[Num 1, Undefined, Num 1, Num 2], [Num 2, Num 0, Num 0],
                  [Num 0, Num 2, Num 0, Num 1], [Num 2, Undefined, Num 2]]\<rparr>,
             [0, 0, 0, 0, 1, 3])
   \<and> findMatches [[Num 1, Undefined, Num 1, Num 2], [Num 2, Num 0, Num 0],
                   [Num 0, Num 2, Num 0, Num 1], [Num 2, Undefined, Num 2]]
     = Done [[(1, 1), (1, 2), (1, 3)]]
   \<and> combineMatches [[(1, 1), (1, 2), (1, 3)]] = [[(1, 1), (1, 2), (1, 3)]]
   \<and> get_orb [[Num 1, Undefined, Num 1, Num 2], [Num 2, Num 0, Num 0],
               [Num 0, Num 2, Num 0, Num 1], [Num 2, Undefined, Num 2]] 1 2 = Done (Num 0)
   \<and> random_fallback 2 \<lparr>width = 4, height = 3, types = [Num 0, Num 1, Num 2],
          orbs = [[Num 1, Undefined, Num 1, Num 2], [Num 2, Num 0, Num 0],
                  [Num 0, Num 2, Num 0, Num 1], [Num 2, Undefined, Num 2]]\<rparr>
       (Num 0) [(1, 1), (1, 2), (1, 3)] [1, 3] = Done ((1, 3), [])
   \<and> (1, 3) \<in> set [(1, 1), (1, 2), (1, 3 :: int) :: coord]
   \<and> get_orb [[Num 1, Undefined, Num 1, Num 2], [Num 2, Num 0, Num 0],
               [Num 0, Num 2, Num 0, Num 1], [Num 2, Undefined, Num 2]] 1 3 = Done Undefined
   \<and> Board_new 6 4 3 [Num 0, Num 1, Num 2]
       [1, 2, 0, 2, 1, 0, 2, 2, 1, 0, 0, 2,
        0, 0, 0, 0, 0, 0, 0, 0, 0, 0, 0, 0,
        0, 0, 0, 0, 2, 3, 0, 0, 0, 0, 0, 3, 0, 0, 0, 0, 1, 3]
     = Done (\<lparr>width = 4, height = 3, types = [Num 0, Num 1, Num 2],
          orbs = [[Num 1, Undefined, Num 1, Num 2], [Num 2, Num 0, Undefined, Num 0],
                  [Num 0, Num 2, Num 0, Num 1], [Num 2, Undefined, Num 2]]\<rparr>, [])"
proof -
  let ?t = "[Num 0, Num 1, Num 2]"
  let ?b0 = "\<lparr>width = 4, height = 3, types = ?t,
          orbs = [[Num 1, Num 1, Num 1], [Num 2, Num 0, Num 0],
                  [Num 0, Num 2, Num 0], [Num 2, Num 2, Num 2]]\<rparr>"
  let ?b1 = "\<lparr>width = 4, height = 3, types = ?t,
          orbs = [[Num 1, Undefined, Num 1], [Num 2, Num 0, Num 0],
                  [Num 0, Num 2, Num 0, Num 1], [Num 2, Num 2, Num 2]]\<rparr>"
  let ?g2 = "[[Num 1, Undefined, Num 1, Num 2], [Num 2, Num 0, Num 0],
                  [Num 0, Num 2, Num 0, Num 1], [Num 2, Undefined, Num 2]]"
  let ?b2 = "\<lparr>width = 4, height = 3, types = ?t, orbs = ?g2\<rparr>"
  let ?m = "[(1, 1), (1, 2), (1, 3)] :: coord list"
  have 0: "shuffle_rows
       (lodash_zip (fst (sample_rows 3 4 ?t
          [1, 2, 0, 2, 1, 0, 2, 2, 1, 0, 0, 2,
           0, 0, 0, 0, 0, 0, 0, 0, 0, 0, 0, 0,
           0, 0, 0, 0, 2, 3, 0, 0, 0, 0, 0, 3, 0, 0, 0, 0, 1, 3])))
       (snd (sample_rows 3 4 ?t
          [1, 2, 0, 2, 1, 0, 2, 2, 1, 0, 0, 2,
           0, 0, 0, 0, 0, 0, 0, 0, 0, 0, 0, 0,
           0, 0, 0, 0, 2, 3, 0, 0, 0, 0, 0, 3, 0, 0, 0, 0, 1, 3]))
     = ([[Num 1, Num 1, Num 1], [Num 2, Num 0, Num 0],
         [Num 0, Num 2, Num 0], [Num 2, Num 2, Num 2]],
        [0, 0, 0, 0, 2, 3, 0, 0, 0, 0, 0, 3, 0, 0, 0, 0, 1, 3])" by code_simp
  have 1: "unmatch_step 4 ?b0 [(0, 0), (0, 1), (0, 2)]
             [0, 0, 0, 0, 2, 3, 0, 0, 0, 0, 0, 3, 0, 0, 0, 0, 1, 3]
           = Done (?b1, [0, 0, 0, 0, 0, 3, 0, 0, 0, 0, 1, 3])" by code_simp
  have 2: "unmatch_step 3 ?b1 [(3, 0), (3, 1), (3, 2)] [0, 0, 0, 0, 0, 3, 0, 0, 0, 0, 1, 3]
           = Done (?b2, [0, 0, 0, 0, 1, 3])" by code_simp
  have 3: "findMatches ?g2 = Done [?m]" by code_simp
  have 4: "combineMatches [?m] = [?m]" by code_simp
  have 5: "get_orb ?g2 1 2 = Done (Num 0)" by code_simp
  have 6: "random_fallback 2 ?b2 (Num 0) ?m [1, 3] = Done ((1, 3), [])" by code_simp
  have 7: "(1, 3) \<in> set ?m" by simp
  have 8: "get_orb ?g2 1 3 = Done Undefined" by code_simp
  have 9: "Board_new 6 4 3 ?t
       [1, 2, 0, 2, 1, 0, 2, 2, 1, 0, 0, 2,
        0, 0, 0, 0, 0, 0, 0, 0, 0, 0, 0, 0,
        0, 0, 0, 0, 2, 3, 0, 0, 0, 0, 0, 3, 0, 0, 0, 0, 1, 3]
     = Done (\<lparr>width = 4, height = 3, types = ?t,
          orbs = [[Num 1, Undefined, Num 1, Num 2], [Num 2, Num 0, Undefined, Num 0],
                  [Num 0, Num 2, Num 0, Num 1], [Num 2, Undefined, Num 2]]\<rparr>, [])"
    by code_simp
  show ?thesis using 0 1 2 3 4 5 6 7 8 9 by blast
qed

section \<open>Properties of the constructor\<close>

lemma nse_Done [simp]: "no_spec_error (Done x)"
  and nse_Timeout [simp]: "no_spec_error Timeout"
  and nse_TypeError [simp]: "no_spec_error (Raise TypeError)"
  and nse_RangeError [simp]: "no_spec_error (Raise RangeError)"
  by (simp_all add: no_spec_error_def)

lemma nse_bind:
  "no_spec_error m \<Longrightarrow> (\<And>x. m = Done x \<Longrightarrow> no_spec_error (f x)) \<Longrightarrow> no_spec_error (bind_run m f)"
  by (cases m) (auto simp: bind_run_def no_spec_error_def)

lemma nse_get_orb [simp]: "no_spec_error (get_orb g r c)"
  by (simp add: get_orb_def split: option.splits)

lemma nse_set_orb [simp]: "no_spec_error (set_orb g r c v)"
  by (simp add: set_orb_def split: option.splits)

lemma nse_iterchunks_priv [simp]: "no_spec_error (iterchunks_priv g cl p t)"
  by (simp add: iterchunks_priv_def Let_def split: list.splits)

lemma nse_findMatches [simp]: "no_spec_error (findMatches g)"
  using nse_iterchunks_priv[of g "(3, 1)" True False]
    nse_iterchunks_priv[of "lodash_zip g" "(3, 1)" True True]
  by (auto simp: findMatches_def no_spec_error_def split: run.splits)

lemma nse_hasMatch [simp]: "no_spec_error (hasMatch g)"
  using nse_findMatches[of g] by (auto simp: hasMatch_def no_spec_error_def split: run.splits)

lemma nse_hasPotentialMatch [simp]: "no_spec_error (hasPotentialMatch g)"
  using nse_iterchunks_priv[of g "(4, 2)" False False]
    nse_iterchunks_priv[of "lodash_zip g" "(4, 2)" False True]
  by (auto simp: hasPotentialMatch_def iterchunks_def no_spec_error_def Let_def split: run.splits)

lemma nse_needsShuffle [simp]: "no_spec_error (needsShuffle g)"
  using nse_hasPotentialMatch[of g]
  by (auto simp: needsShuffle_def no_spec_error_def split: run.splits)

lemma nse_swap_internal [simp]: "no_spec_error (swap g ab False)"
  using nse_get_orb nse_set_orb
  by (auto simp: swap_def Let_def no_spec_error_def split: run.splits)

lemma nse_random_fallback [simp]: "no_spec_error (random_fallback fuel b t m rs)"
  by (induction fuel arbitrary: rs) (auto simp: Let_def intro!: nse_bind)

lemma nse_unmatch_priv [simp]: "no_spec_error (unmatch_priv fuel b r c m s rs)"
  by (auto simp: unmatch_priv_def Let_def intro!: nse_bind split: option.splits)

lemma nse_unmatch_step [simp]: "no_spec_error (unmatch_step fuel b m rs)"
  by (auto simp: unmatch_step_def Let_def intro!: nse_bind split: option.splits)

lemma nse_unmatch [simp]: "no_spec_error (unmatch fuel b rs)"
  by (induction fuel arbitrary: b rs) (auto intro!: nse_bind split: list.splits)

lemma nse_shuffle [simp]: "no_spec_error (shuffle fuel b rs)"
  by (induction fuel arbitrary: b rs) (auto simp: Let_def intro!: nse_bind)

lemma nse_Board_new: "no_spec_error (Board_new fuel w h tys rs)"
  by (auto simp: Board_new_def Let_def intro!: nse_bind)

text \<open>
  A board of width 2 is constructed without error: the sampled grid, two rows of four
  cells, has no match and has a potential match.
\<close>

theorem Board_new_width_two_counterexample:
  "Board_new 0 2 4 [Num 0, Num 1] [0, 1, 0, 1, 1, 0, 0, 1]
     = Done (\<lparr>width = 2, height = 4, types = [Num 0, Num 1],
               orbs = [[Num 0, Num 0, Num 1, Num 0], [Num 1, Num 1, Num 0, Num 1]]\<rparr>, [])"
  by code_simp

text \<open>
  The grid is stored transposed, \<open>width\<close> rows of \<open>height\<close> cells, while the random
  fallback of \<open>_unmatch\<close> draws a row index below \<open>height\<close>. On a board of width 3 and
  height 5 whose cells all hold one token the fallback is reached, and a drawn row 4
  reads a row that does not exist.
\<close>

lemma Board_new_non_square_TypeError:
  "Board_new 10 3 5 [Num 0, Num 1] (replicate 35 0 @ [4]) = Raise TypeError"
  by code_simp

lemma same_config_refl [simp]: "same_config b b"
  and same_config_orbs [simp]: "same_config b (b\<lparr>orbs := g\<rparr>)"
  by (simp_all add: same_config_def)

lemma same_config_trans: "same_config a b \<Longrightarrow> same_config b c \<Longrightarrow> same_config a c"
  by (simp add: same_config_def)

lemma unmatch_priv_config:
  "unmatch_priv fuel b r c m s rs = Done (b', rs') \<Longrightarrow> same_config b b'"
  by (auto simp: unmatch_priv_def Let_def bind_run_eq_Done split: option.splits)

lemma unmatch_step_config:
  "unmatch_step fuel b m rs = Done (b', rs') \<Longrightarrow> same_config b b'"
  by (auto simp: unmatch_step_def Let_def bind_run_eq_Done
      split: option.splits if_splits dest: unmatch_priv_config)

lemma unmatch_config:
  "unmatch fuel b rs = Done (b', rs') \<Longrightarrow> same_config b b'"
proof (induction fuel arbitrary: b rs)
  case 0
  then show ?case by simp
next
  case (Suc fuel)
  from Suc.prems obtain found where f: "findMatches (orbs b) = Done found"
    and rest: "(if found \<noteq> [] then
         bind_run (findMatches (orbs b)) (\<lambda>triples.
           case combineMatches triples of
             [] \<Rightarrow> Raise TypeError
           | match # _ \<Rightarrow>
               bind_run (unmatch_step fuel b match rs) (\<lambda>st. unmatch fuel (fst st) (snd st)))
       else Done (b, rs)) = Done (b', rs')"
    by (auto simp: bind_run_eq_Done)
  show ?case
  proof (cases "found = []")
    case True
    then show ?thesis using rest by simp
  next
    case False
    then obtain match st where "unmatch_step fuel b match rs = Done st"
      "unmatch fuel (fst st) (snd st) = Done (b', rs')"
      using rest f by (auto simp: bind_run_eq_Done split: list.splits)
    then show ?thesis
      using unmatch_step_config[of fuel b match rs "fst st" "snd st"] Suc.IH[of "fst st" "snd st"]
      by (auto intro: same_config_trans)
  qed
qed

lemma shuffle_config:
  "shuffle fuel b rs = Done (b', rs') \<Longrightarrow> same_config b b'"
proof (induction fuel arbitrary: b rs)
  case 0
  then show ?case by simp
next
  case (Suc fuel)
  let ?mixed = "shuffle_rows (orbs b) rs"
  from Suc.prems obtain st again where
    u: "unmatch fuel (b\<lparr>orbs := fst ?mixed\<rparr>) (snd ?mixed) = Done st"
    and r: "(if again then shuffle fuel (fst st) (snd st) else Done st) = Done (b', rs')"
    by (auto simp: bind_run_eq_Done Let_def)
  have 1: "same_config b (fst st)"
    using unmatch_config[of fuel _ _ "fst st" "snd st"] u
    by (auto simp: same_config_def)
  show ?case
  proof (cases again)
    case True
    then show ?thesis using r Suc.IH[of "fst st" "snd st"] 1 by (auto intro: same_config_trans)
  next
    case False
    then show ?thesis using r 1 by auto
  qed
qed

text \<open>
  C7, as amended. The constructor checks none of its arguments: for every width, height
  and list of types it never fails with a \<open>ConfigurationError\<close>, and whenever it produces
  a board, the board carries the width, the height and the types it was given.
\<close>

theorem Board_new_no_validation:
  "Board_new fuel w h tys rs \<noteq> Raise ConfigurationError
   \<and> (Board_new fuel w h tys rs = Done (b, rs') \<longrightarrow> width b = w \<and> height b = h \<and> types b = tys)"
proof -
  have 1: "Board_new fuel w h tys rs \<noteq> Raise ConfigurationError"
    using nse_Board_new[of fuel w h tys rs] by (simp add: no_spec_error_def)
  have 2: "width b = w \<and> height b = h \<and> types b = tys"
    if "Board_new fuel w h tys rs = Done (b, rs')"
  proof -
    let ?s = "sample_rows h w tys rs"
    let ?b = "\<lparr>width = w, height = h, types = tys, orbs = lodash_zip (fst ?s)\<rparr>"
    from that obtain go where
      r: "(if go then shuffle fuel ?b (snd ?s) else Done (?b, snd ?s)) = Done (b, rs')"
      by (auto simp: Board_new_def bind_run_eq_Done Let_def)
    have "same_config ?b b"
      using r shuffle_config[of fuel ?b "snd ?s" b rs'] by (cases go) auto
    then show ?thesis by (simp add: same_config_def)
  qed
  show ?thesis using 1 2 by blast
qed

theorem Board_new_no_validation_witness:
  "Board_new 6 4 4 [Num 0, Num 1, Num 2]
     [2, 1, 1, 0, 0, 2, 1, 0, 0, 0, 1, 2, 2, 1, 1, 1, 5, 6, 1, 1, 5, 9, 7, 1, 4, 3, 9, 8, 11, 7, 10, 5]
   = Done (\<lparr>width = 4, height = 4, types = [Num 0, Num 1, Num 2],
            orbs = [[Num 1, Num 2, Num 2, Num 0], [Num 2, Num 1, Num 1, Num 0],
                    [Num 1, Num 1, Num 0, Num 1], [Num 1, Num 2, Num 0, Num 0]]\<rparr>, [])
   \<and> Board_new 6 4 4 [Num 0, Num 1, Num 2]
     [2, 1, 1, 0, 0, 2, 1, 0, 0, 0, 1, 2, 2, 1, 1, 1, 5, 6, 1, 1, 5, 9, 7, 1, 4, 3, 9, 8, 11, 7, 10, 5]
     \<noteq> Raise ConfigurationError
   \<and> width \<lparr>width = 4, height = 4, types = [Num 0, Num 1, Num 2],
            orbs = [[Num 1, Num 2, Num 2, Num 0], [Num 2, Num 1, Num 1, Num 0],
                    [Num 1, Num 1, Num 0, Num 1], [Num 1, Num 2, Num 0, Num 0]]\<rparr> = 4"
proof -
  let ?rs = "[2, 1, 1, 0, 0, 2, 1, 0, 0, 0, 1, 2, 2, 1, 1, 1, 5, 6, 1, 1, 5, 9, 7, 1, 4, 3, 9, 8, 11, 7, 10, 5]"
  let ?b = "\<lparr>width = 4, height = 4, types = [Num 0, Num 1, Num 2],
            orbs = [[Num 1, Num 2, Num 2, Num 0], [Num 2, Num 1, Num 1, Num 0],
                    [Num 1, Num 1, Num 0, Num 1], [Num 1, Num 2, Num 0, Num 0]]\<rparr>"
  have 1: "Board_new 6 4 4 [Num 0, Num 1, Num 2] ?rs = Done (?b, [])" by code_simp
  have 2: "Board_new 6 4 4 [Num 0, Num 1, Num 2] ?rs \<noteq> Raise ConfigurationError
           \<and> (width ?b = 4 \<and> height ?b = 4 \<and> types ?b = [Num 0, Num 1, Num 2])"
    using Board_new_no_validation[of 6 4 4 "[Num 0, Num 1, Num 2]" ?rs ?b "[]"] 1 by blast
  show ?thesis using 1 2 by blast
qed

end
